theory Spec2Isabelle
  imports Complex_Main "HOL-Library.Sublist" "HOL-Library.Word"
begin

section \<open>JavaScript strings and numbers used by the program\<close>

text \<open>
  Strings are lists of characters. A byte count is a natural number; the source holds
  it in a JavaScript Number, which is exact for the integers below \<open>2 ^ 53\<close>, and the
  divisions of \<open>formatSize\<close> are by powers of two, hence exact as well. Their results
  are modelled as rationals.
\<close>

definition digitChar :: "nat \<Rightarrow> char" where
  "digitChar d = ''0123456789'' ! d"

definition isDigit :: "char \<Rightarrow> bool" where
  "isDigit c = (48 \<le> (of_char c :: nat) \<and> (of_char c :: nat) \<le> 57)"

definition digitVal :: "char \<Rightarrow> nat" where
  "digitVal c = of_char c - 48"

text \<open>The template literal \<^verbatim>\<open>${size}\<close> of a non-negative integer: its decimal digits.\<close>

fun numberToString :: "nat \<Rightarrow> string" where
  "numberToString n =
     (if n < 10 then [digitChar n] else numberToString (n div 10) @ [digitChar (n mod 10)])"

declare numberToString.simps [simp del]

text \<open>
  \<^verbatim>\<open>Number.prototype.toFixed(f)\<close> on \<open>0 \<le> x < 10 ^ 21\<close>, as ECMAScript defines it:
  \<open>n\<close> is the integer nearest to \<open>x * 10 ^ f\<close> (the larger one on a tie), \<open>m\<close> its
  decimal digits, padded on the left with zeros to \<open>f + 1\<close> digits, and the point goes
  before the last \<open>f\<close> digits. (From \<open>10 ^ 21\<close> on the source prints the number in
  exponent form; no quotient of a byte count below \<open>2 ^ 53\<close> is that large.)
\<close>

definition toFixed :: "nat \<Rightarrow> rat \<Rightarrow> string" where
  "toFixed f x =
     (let n = nat \<lfloor>x * 10 ^ f + 1 / 2\<rfloor>;
          m = numberToString n;
          m = (if f \<noteq> 0 \<and> length m \<le> f
               then replicate (f + 1 - length m) (CHR ''0'') @ m else m);
          k = length m
      in if f \<noteq> 0 then take (k - f) m @ ''.'' @ drop (k - f) m else m)"

text \<open>\<^verbatim>\<open>String.prototype.includes\<close>: the pattern occurs somewhere in the string.\<close>

fun str_includes :: "string \<Rightarrow> string \<Rightarrow> bool" where
  "str_includes [] pat = (pat = [])"
| "str_includes (c # cs) pat = (prefix pat (c # cs) \<or> str_includes cs pat)"

text \<open>
  \<^verbatim>\<open>String.prototype.replace\<close> with a string pattern: the first occurrence only. (The
  replacement is the empty string in the source, so no \<^verbatim>\<open>$\<close> pattern is involved.)
\<close>

fun replace :: "string \<Rightarrow> string \<Rightarrow> string \<Rightarrow> string" where
  "replace [] pat rep = (if pat = [] then rep else [])"
| "replace (c # cs) pat rep =
     (if prefix pat (c # cs) then rep @ drop (length pat) (c # cs)
      else c # replace cs pat rep)"

text \<open>White space, on the ASCII range: tab, line feed, vertical tab, form feed,
  carriage return and space.\<close>

definition isWhiteSpace :: "char \<Rightarrow> bool" where
  "isWhiteSpace c = ((9 \<le> (of_char c :: nat) \<and> (of_char c :: nat) \<le> 13) \<or> c = CHR '' '')"

definition trim :: "string \<Rightarrow> string" where
  "trim s = rev (dropWhile isWhiteSpace (rev (dropWhile isWhiteSpace s)))"

text \<open>\<^verbatim>\<open>String.prototype.toLowerCase\<close>, on the ASCII range: the letters \<open>A\<close> to \<open>Z\<close>
  are mapped to \<open>a\<close> to \<open>z\<close>, every other character is left as it is.\<close>

definition lowerChar :: "char \<Rightarrow> char" where
  "lowerChar c =
     (case map_of (zip ''ABCDEFGHIJKLMNOPQRSTUVWXYZ'' ''abcdefghijklmnopqrstuvwxyz'') c of
        None \<Rightarrow> c
      | Some l \<Rightarrow> l)"

definition toLowerCase :: "string \<Rightarrow> string" where
  "toLowerCase s = map lowerChar s"

text \<open>
  The values \<^verbatim>\<open>parseFloat\<close> returns. A finite value is the exact value of the
  decimal literal that was read; the source rounds it to the nearest double, which
  changes no comparison with \<open>250\<close> for a literal of at most two fraction digits.
\<close>

datatype number = NaN | Num rat | Infinity | NegInfinity

definition digitsValue :: "string \<Rightarrow> nat" where
  "digitsValue ds = foldl (\<lambda>a c. 10 * a + digitVal c) 0 ds"

text \<open>The exponent part \<^verbatim>\<open>e\<close>, \<^verbatim>\<open>E\<close> with an optional sign and at least one
  digit; anything else is not part of the literal and counts as exponent 0.\<close>

definition exponentPart :: "string \<Rightarrow> int" where
  "exponentPart r =
     (case r of
        [] \<Rightarrow> 0
      | c # r1 \<Rightarrow>
          if c = CHR ''e'' \<or> c = CHR ''E'' then
            (case r1 of
               [] \<Rightarrow> 0
             | s # r2 \<Rightarrow>
                 if s = CHR ''+'' \<or> s = CHR ''-'' then
                   (if takeWhile isDigit r2 = [] then 0
                    else if s = CHR ''-'' then - int (digitsValue (takeWhile isDigit r2))
                    else int (digitsValue (takeWhile isDigit r2)))
                 else if takeWhile isDigit r1 = [] then 0
                 else int (digitsValue (takeWhile isDigit r1)))
          else 0)"

definition scale10 :: "rat \<Rightarrow> int \<Rightarrow> rat" where
  "scale10 x e = (if 0 \<le> e then x * 10 ^ nat e else x / 10 ^ nat (- e))"

text \<open>The longest prefix that is an unsigned decimal literal: digits, an optional
  point with digits, an optional exponent; or \<^verbatim>\<open>Infinity\<close>. \<open>None\<close> when there is
  none.\<close>

definition unsignedLiteral :: "string \<Rightarrow> rat option option" where
  "unsignedLiteral s =
     (let ip = takeWhile isDigit s;
          r = dropWhile isDigit s;
          fp = (case r of [] \<Rightarrow> []
                | c # t \<Rightarrow> if c = CHR ''.'' then takeWhile isDigit t else []);
          r1 = (case r of [] \<Rightarrow> []
                | c # t \<Rightarrow> if c = CHR ''.'' then dropWhile isDigit t else r)
      in if ip = [] \<and> fp = [] then (if prefix ''Infinity'' s then Some None else None)
         else Some (Some (scale10
                (of_nat (digitsValue ip) + of_nat (digitsValue fp) / 10 ^ length fp)
                (exponentPart r1))))"

definition parseFloat :: "string \<Rightarrow> number" where
  "parseFloat str =
     (let s = dropWhile isWhiteSpace str;
          neg = (s \<noteq> [] \<and> hd s = CHR ''-'');
          s1 = (if s \<noteq> [] \<and> (hd s = CHR ''-'' \<or> hd s = CHR ''+'') then tl s else s)
      in case unsignedLiteral s1 of
           None \<Rightarrow> NaN
         | Some None \<Rightarrow> (if neg then NegInfinity else Infinity)
         | Some (Some x) \<Rightarrow> Num (if neg then - x else x))"

text \<open>The comparison \<^verbatim>\<open>v > y\<close> of a number with a finite constant; false on NaN.\<close>

fun numberGt :: "number \<Rightarrow> rat \<Rightarrow> bool" where
  "numberGt NaN y = False"
| "numberGt (Num x) y = (y < x)"
| "numberGt Infinity y = True"
| "numberGt NegInfinity y = False"

section \<open>Size formatting\<close>

text \<open>\<^verbatim>\<open>formatSize\<close> of \<^verbatim>\<open>DynamicCompressImage\<close>.\<close>

definition formatSize :: "nat \<Rightarrow> string" where
  "formatSize sz =
     (if sz < 1024 then numberToString sz @ '' Bytes''
      else if sz < 1024 * 1024 then toFixed 2 (of_nat sz / 1024) @ '' KB''
      else if sz < 1024 * 1024 * 1024 then toFixed 2 (of_nat sz / (1024 * 1024)) @ '' MB''
      else toFixed 2 (of_nat sz / (1024 * 1024 * 1024)) @ '' GB'')"

text \<open>\<^verbatim>\<open>formatSize\<close> of \<^verbatim>\<open>ImageCollector\<close>, a method of its own in the source.\<close>

definition collector_formatSize :: "nat \<Rightarrow> string" where
  "collector_formatSize sz =
     (if sz < 1024 then numberToString sz @ '' Bytes''
      else if sz < 1024 * 1024 then toFixed 2 (of_nat sz / 1024) @ '' KB''
      else if sz < 1024 * 1024 * 1024 then toFixed 2 (of_nat sz / (1024 * 1024)) @ '' MB''
      else toFixed 2 (of_nat sz / (1024 * 1024 * 1024)) @ '' GB'')"

text \<open>The rendering of \<open>q\<close> hundredths with two decimals, as a reference for the
  statements below: the integer part, a point, the tenths and the hundredths.\<close>

definition twoDecimals :: "nat \<Rightarrow> string" where
  "twoDecimals q =
     numberToString (q div 100) @ ''.'' @ [digitChar (q div 10 mod 10), digitChar (q mod 10)]"

section \<open>The size policy of the compression pass\<close>

text \<open>\<^verbatim>\<open>shouldCompress(sizeStr)\<close>: the decision is read off the display string.\<close>

definition shouldCompress :: "string \<Rightarrow> bool" where
  "shouldCompress sizeStr =
     (if str_includes sizeStr ''KB''
      then numberGt (parseFloat (trim (replace sizeStr '' KB'' ''''))) 250
      else True)"

section \<open>Catalog records, the file system and the codec\<close>

type_synonym path = string

type_synonym bytes = "8 word list"

text \<open>
  A record of the catalog as it is saved: the fields \<^verbatim>\<open>name, path, size, extension,
  width, height\<close>. The field \<^verbatim>\<open>size\<close>, the display string, is \<open>sizeStr\<close> here.
  \<^verbatim>\<open>width\<close> and \<^verbatim>\<open>height\<close> are what the metadata probe gave, possibly undefined.
  The collector's record has \<^verbatim>\<open>sizeInBytes\<close> in addition.
\<close>

record image =
  name :: string
  path :: path
  sizeStr :: string
  extension :: string
  width :: "nat option"
  height :: "nat option"

record image_info = image +
  sizeInBytes :: nat

text \<open>The regular files, by path.\<close>

type_synonym fs = "path \<rightharpoonup> bytes"

datatype error = SharpError string | FsError string

text \<open>
  What the program asks of the \<^verbatim>\<open>sharp\<close> library: an input (a file path or a
  buffer), the chained operations \<^verbatim>\<open>.resize({ width, withoutEnlargement })\<close>,
  \<^verbatim>\<open>.jpeg({ quality })\<close>, \<^verbatim>\<open>.png({ compressionLevel })\<close>, and an output
  (\<^verbatim>\<open>toBuffer\<close>, \<^verbatim>\<open>toFile\<close> or \<^verbatim>\<open>metadata\<close>). The library is a parameter
  of the model. \<^verbatim>\<open>toBuffer\<close> and \<^verbatim>\<open>metadata\<close> read the file system;
  \<^verbatim>\<open>toFile\<close> returns the file system it leaves, also when it fails.
\<close>

datatype input = FromPath path | FromBuffer bytes

datatype operation =
    Resize (resize_width: nat) (withoutEnlargement: bool)
  | Jpeg (quality: nat)
  | Png (compressionLevel: nat)

record sharp =
  toBuffer :: "fs \<Rightarrow> input \<Rightarrow> operation list \<Rightarrow> error + bytes"
  toFile :: "fs \<Rightarrow> input \<Rightarrow> operation list \<Rightarrow> path \<Rightarrow> error option \<times> fs"
  metadata :: "fs \<Rightarrow> input \<Rightarrow> error + nat option \<times> nat option"

text \<open>The calls the program makes to the library, to the file system and to the
  console, in the order it makes them.\<close>

datatype event =
    SharpToBuffer input "operation list"
  | SharpToFile input "operation list" path
  | SharpMetadata input
  | StatSync path
  | ConsoleLog string
  | ConsoleError string error

text \<open>\<^verbatim>\<open>fs.statSync(p).size\<close>; it throws when there is no such file.\<close>

definition statSync_size :: "fs \<Rightarrow> path \<Rightarrow> error + nat" where
  "statSync_size files p =
     (case files p of None \<Rightarrow> Inl (FsError ''ENOENT'') | Some b \<Rightarrow> Inr (length b))"

text \<open>The calls that write a file: \<^verbatim>\<open>toFile\<close> is the only one the program makes.\<close>

fun isWrite :: "event \<Rightarrow> bool" where
  "isWrite (SharpToFile inp ops p) = True"
| "isWrite e = False"

definition writes :: "event list \<Rightarrow> event list" where
  "writes evs = filter isWrite evs"

section \<open>The compression of one image\<close>

text \<open>\<^verbatim>\<open>width > 1500\<close>, false when the width is undefined.\<close>

definition widthGt :: "nat option \<Rightarrow> nat \<Rightarrow> bool" where
  "widthGt w n = (case w of None \<Rightarrow> False | Some v \<Rightarrow> n < v)"

text \<open>
  One re-encoding step of \<^verbatim>\<open>compressImage\<close>, written twice in the source (with
  JPEG quality 80, then 60): the extension is compared as it stands with
  \<^verbatim>\<open>'.jpg'\<close>, \<^verbatim>\<open>'.jpeg'\<close> and \<^verbatim>\<open>'.png'\<close>; any other extension leaves the buffer
  as it is.
\<close>

definition reencode ::
  "sharp \<Rightarrow> fs \<Rightarrow> string \<Rightarrow> nat \<Rightarrow> bytes \<Rightarrow> (error + bytes) \<times> event list" where
  "reencode sh files ext q buf =
     (if ext = ''.jpg'' \<or> ext = ''.jpeg''
      then (toBuffer sh files (FromBuffer buf) [Jpeg q], [SharpToBuffer (FromBuffer buf) [Jpeg q]])
      else if ext = ''.png''
      then (toBuffer sh files (FromBuffer buf) [Png 9], [SharpToBuffer (FromBuffer buf) [Png 9]])
      else (Inr buf, []))"

text \<open>The block \<^verbatim>\<open>if (data.length > this.maxSize) { ... }\<close> with its nested second
  check.\<close>

definition compressStages ::
  "sharp \<Rightarrow> nat \<Rightarrow> fs \<Rightarrow> string \<Rightarrow> bytes \<Rightarrow> (error + bytes) \<times> event list" where
  "compressStages sh maxSize files ext buf =
     (if maxSize < length buf then
        (case reencode sh files ext 80 buf of
           (Inl err, evs) \<Rightarrow> (Inl err, evs)
         | (Inr buf1, evs) \<Rightarrow>
             if maxSize < length buf1 then
               (case reencode sh files ext 60 buf1 of (r, evs2) \<Rightarrow> (r, evs @ evs2))
             else (Inr buf1, evs))
      else (Inr buf, []))"

text \<open>
  \<^verbatim>\<open>compressImage(image)\<close> of an instance with \<^verbatim>\<open>this.maxSize = maxSize\<close>. The
  result is the new size or the error that is thrown again by the \<^verbatim>\<open>catch\<close> block
  (after \<^verbatim>\<open>console.error\<close>), the file system afterwards, and the calls made.
\<close>

definition compressImage ::
  "sharp \<Rightarrow> nat \<Rightarrow> 'a image_scheme \<Rightarrow> fs \<Rightarrow> (error + nat) \<times> fs \<times> event list" where
  "compressImage sh maxSize img files =
     (let imagePath = path img;
          ops = (if widthGt (width img) 1500 then [Resize 1400 True] else []);
          first = SharpToBuffer (FromPath imagePath) ops;
          caught = ConsoleError (''Error compressing '' @ imagePath @ '':'')
      in case toBuffer sh files (FromPath imagePath) ops of
           Inl err \<Rightarrow> (Inl err, files, [first, caught err])
         | Inr buf0 \<Rightarrow>
             (case compressStages sh maxSize files (extension img) buf0 of
                (Inl err, evs) \<Rightarrow> (Inl err, files, first # evs @ [caught err])
              | (Inr buf, evs) \<Rightarrow>
                  (case toFile sh files (FromBuffer buf) [] imagePath of
                     (Some err, files1) \<Rightarrow>
                       (Inl err, files1,
                        first # evs @ [SharpToFile (FromBuffer buf) [] imagePath, caught err])
                   | (None, files1) \<Rightarrow>
                       (case statSync_size files1 imagePath of
                          Inl err \<Rightarrow>
                            (Inl err, files1,
                             first # evs @ [SharpToFile (FromBuffer buf) [] imagePath,
                                            StatSync imagePath, caught err])
                        | Inr newSize \<Rightarrow>
                            (Inr newSize, files1,
                             first # evs @ [SharpToFile (FromBuffer buf) [] imagePath,
                                            StatSync imagePath])))))"

section \<open>The compression pass\<close>

text \<open>\<^verbatim>\<open>${image.width}\<close> in a template literal.\<close>

definition widthToString :: "nat option \<Rightarrow> string" where
  "widthToString w = (case w of None \<Rightarrow> ''undefined'' | Some v \<Rightarrow> numberToString v)"

text \<open>The body of the loop of \<^verbatim>\<open>compressImagesFromJson\<close> for one record.\<close>

definition processImage :: "sharp \<Rightarrow> nat \<Rightarrow> image \<Rightarrow> fs \<Rightarrow> fs \<times> event list" where
  "processImage sh maxSize img files =
     (if shouldCompress (sizeStr img) then
        (case compressImage sh maxSize img files of
           (Inr newSize, files1, evs) \<Rightarrow>
             (files1,
              evs @ [ConsoleLog (''Compressed: '' @ path img @ '' to '' @ formatSize newSize
                                 @ '' from '' @ sizeStr img)])
         | (Inl err, files1, evs) \<Rightarrow>
             (files1, evs @ [ConsoleError (''Error compressing '' @ path img @ '':'') err]))
      else
        (files,
         [ConsoleLog (''Skipped: '' @ path img @ '' (Size: '' @ sizeStr img
                      @ '', Width: '' @ widthToString (width img) @ '')'')]))"

text \<open>
  \<^verbatim>\<open>compressImagesFromJson\<close>, from the parsed content of the JSON file on: the loop
  over the records, in their order.
\<close>

fun compressImagesFromJson :: "sharp \<Rightarrow> nat \<Rightarrow> image list \<Rightarrow> fs \<Rightarrow> fs \<times> event list" where
  "compressImagesFromJson sh maxSize [] files = (files, [])"
| "compressImagesFromJson sh maxSize (img # images) files =
     (case processImage sh maxSize img files of
        (files1, evs) \<Rightarrow>
          (case compressImagesFromJson sh maxSize images files1 of
             (files2, evs2) \<Rightarrow> (files2, evs @ evs2)))"

section \<open>The collector\<close>

text \<open>
  \<^verbatim>\<open>path.extname\<close> (POSIX): in the last component of the path, the part from the
  last dot on; empty when there is no dot, when the only dot is the first character,
  and for the component \<^verbatim>\<open>..\<close>.
\<close>

definition lastComponent :: "string \<Rightarrow> string" where
  "lastComponent p =
     rev (takeWhile (\<lambda>c. c \<noteq> CHR ''/'') (dropWhile (\<lambda>c. c = CHR ''/'') (rev p)))"

definition extname :: "string \<Rightarrow> string" where
  "extname p =
     (let b = lastComponent p;
          e = rev (takeWhile (\<lambda>c. c \<noteq> CHR ''.'') (rev b))
      in if CHR ''.'' \<notin> set b then []
         else if length e + 1 = length b then []
         else if b = ''..'' then []
         else CHR ''.'' # e)"

text \<open>\<^verbatim>\<open>path.basename(file, ext)\<close> of a directory entry name (no separator in it).\<close>

definition basename :: "string \<Rightarrow> string \<Rightarrow> string" where
  "basename file ext =
     (if ext \<noteq> [] \<and> length ext \<le> length file then
        (if ext = file then []
         else if suffix ext file then take (length file - length ext) file
         else file)
      else file)"

text \<open>\<^verbatim>\<open>path.join(dir, file)\<close> of a normalised directory path other than the root
  and an entry name.\<close>

definition join :: "path \<Rightarrow> string \<Rightarrow> path" where
  "join dir file = dir @ ''/'' @ file"

definition imageExtensions :: "string list" where
  "imageExtensions = [''.jpg'', ''.jpeg'', ''.png'']"

definition isImage :: "string \<Rightarrow> bool" where
  "isImage file = (toLowerCase (extname file) \<in> set imageExtensions)"

text \<open>
  The step of \<^verbatim>\<open>getImagesFromDirectory\<close> for an entry \<open>file\<close> of \<open>dir\<close> that is a
  regular file (the branch \<^verbatim>\<open>stat.isFile() && this.isImage(file)\<close>): the record
  pushed on \<open>fileList\<close>, or the error logged when the metadata cannot be read.
  An entry that is no regular file is not handled here.
\<close>

definition collectFile ::
  "sharp \<Rightarrow> fs \<Rightarrow> path \<Rightarrow> string \<Rightarrow> image_info list \<Rightarrow> image_info list \<times> event list" where
  "collectFile sh files dir file fileList =
     (let filePath = join dir file in
      case files filePath of
        None \<Rightarrow> (fileList, [])
      | Some content \<Rightarrow>
          if isImage file then
            (case metadata sh files (FromPath filePath) of
               Inl err \<Rightarrow>
                 (fileList,
                  [SharpMetadata (FromPath filePath),
                   ConsoleError (''Error reading metadata of '' @ filePath @ '':'') err])
             | Inr (w, h) \<Rightarrow>
                 (fileList @
                  [\<lparr>name = basename file (extname file), path = filePath,
                    sizeStr = collector_formatSize (length content),
                    extension = extname file, width = w, height = h,
                    sizeInBytes = length content\<rparr>],
                  [SharpMetadata (FromPath filePath)]))
          else (fileList, []))"

text \<open>\<^verbatim>\<open>imagesToSave\<close>: the records without \<^verbatim>\<open>sizeInBytes\<close>, as they are written
  to the JSON file and read back by the compression pass.\<close>

definition imagesToSave :: "image_info list \<Rightarrow> image list" where
  "imagesToSave images = map image.truncate images"

section \<open>A small codec, for concrete runs\<close>

text \<open>
  An executable stand-in for the library: decoding and re-encoding drops the zero
  bytes of the input, a resize halves the buffer, JPEG at quality \<open>q\<close> keeps \<open>q\<close>
  percent of it, PNG compression drops its last byte. \<open>toFile\<close> stores the encoded
  buffer at the path. The metadata probe reports the length of the file as width and
  as height.
\<close>

definition example_load :: "fs \<Rightarrow> input \<Rightarrow> error + bytes" where
  "example_load files inp =
     (case inp of
        FromBuffer b \<Rightarrow> Inr b
      | FromPath p \<Rightarrow>
          (case files p of
             None \<Rightarrow> Inl (SharpError ''Input file is missing'')
           | Some b \<Rightarrow> Inr b))"

fun example_apply :: "operation \<Rightarrow> bytes \<Rightarrow> bytes" where
  "example_apply (Resize w e) b = take (length b div 2) b"
| "example_apply (Jpeg q) b = take (length b * q div 100) b"
| "example_apply (Png l) b = butlast b"

definition example_encode :: "fs \<Rightarrow> input \<Rightarrow> operation list \<Rightarrow> error + bytes" where
  "example_encode files inp ops =
     (case example_load files inp of
        Inl err \<Rightarrow> Inl err
      | Inr b \<Rightarrow> Inr (fold example_apply ops (filter (\<lambda>x. x \<noteq> 0) b)))"

definition example_sharp :: sharp where
  "example_sharp =
     \<lparr>toBuffer = example_encode,
      toFile = (\<lambda>files inp ops p.
         case example_encode files inp ops of
           Inl err \<Rightarrow> (Some err, files)
         | Inr b \<Rightarrow> (None, files(p \<mapsto> b))),
      metadata = (\<lambda>files inp.
         case example_load files inp of
           Inl err \<Rightarrow> Inl err
         | Inr b \<Rightarrow> Inr (Some (length b), Some (length b)))\<rparr>"

text \<open>The same codec with a file writer that fails after it has truncated the
  destination.\<close>

definition failing_write_sharp :: sharp where
  "failing_write_sharp =
     example_sharp\<lparr>toFile := (\<lambda>files inp ops p.
        (Some (SharpError ''write failed''), files(p \<mapsto> [])))\<rparr>"

section \<open>Digits and two-decimal rendering\<close>

lemma digit_cases: "d < 10 \<Longrightarrow> d \<in> {0, 1, 2, 3, 4, 5, 6, 7, 8, 9 :: nat}"
  by auto

lemma digitChar_isDigit: "d < 10 \<Longrightarrow> isDigit (digitChar d)"
  using digit_cases [of d] by (auto simp: digitChar_def isDigit_def)

lemma digitVal_digitChar: "d < 10 \<Longrightarrow> digitVal (digitChar d) = d"
  using digit_cases [of d] by (auto simp: digitChar_def digitVal_def)

lemma numberToString_small: "n < 10 \<Longrightarrow> numberToString n = [digitChar n]"
  by (simp add: numberToString.simps)

lemma numberToString_step:
  "10 \<le> n \<Longrightarrow> numberToString n = numberToString (n div 10) @ [digitChar (n mod 10)]"
  by (subst numberToString.simps) simp

lemma numberToString_numeral [simp]:
  "numberToString (numeral k) =
     (if (numeral k :: nat) < 10 then [digitChar (numeral k)]
      else numberToString (numeral k div 10) @ [digitChar (numeral k mod 10)])"
  by (rule numberToString.simps)

lemma numberToString_0 [simp]: "numberToString 0 = ''0''"
  by (simp add: numberToString.simps digitChar_def)

lemma numberToString_1 [simp]: "numberToString (Suc 0) = ''1''"
  by (simp add: numberToString.simps digitChar_def)

lemma numberToString_digits: "c \<in> set (numberToString n) \<Longrightarrow> isDigit c"
proof (induction n arbitrary: c rule: numberToString.induct)
  case (1 n)
  show ?case
  proof (cases "n < 10")
    case True
    with "1.prems" show ?thesis
      by (simp add: numberToString_small digitChar_isDigit)
  next
    case False
    with "1.prems" "1.IH" show ?thesis
      by (auto simp: numberToString_step digitChar_isDigit)
  qed
qed

lemma numberToString_nonempty: "numberToString n \<noteq> []"
  by (subst numberToString.simps) simp

lemma digitsValue_snoc: "digitsValue (ds @ [c]) = 10 * digitsValue ds + digitVal c"
  by (simp add: digitsValue_def)

lemma digitsValue_numberToString: "digitsValue (numberToString n) = n"
proof (induction n rule: numberToString.induct)
  case (1 n)
  show ?case
  proof (cases "n < 10")
    case True
    then show ?thesis
      by (simp add: numberToString_small digitsValue_def digitVal_digitChar)
  next
    case False
    with "1.IH" show ?thesis
      by (simp add: numberToString_step digitsValue_snoc digitVal_digitChar)
  qed
qed

lemma numberToString_hundreds:
  "100 \<le> n \<Longrightarrow>
   numberToString n =
     numberToString (n div 100) @ [digitChar (n div 10 mod 10), digitChar (n mod 10)]"
proof -
  assume h: "100 \<le> n"
  then have "10 \<le> n" and "10 \<le> n div 10" by auto
  then have "numberToString n =
      (numberToString (n div 10 div 10) @ [digitChar (n div 10 mod 10)]) @ [digitChar (n mod 10)]"
    by (simp add: numberToString_step [of n] numberToString_step [of "n div 10"])
  then show ?thesis by (simp add: div_mult2_eq [symmetric])
qed

lemma toFixed2_twoDecimals: "toFixed 2 x = twoDecimals (nat \<lfloor>x * 100 + 1 / 2\<rfloor>)"
proof -
  define n where "n = nat \<lfloor>x * 100 + 1 / 2\<rfloor>"
  consider "n < 10" | "10 \<le> n" "n < 100" | "100 \<le> n" by linarith
  then have "(let m = numberToString n;
          m = (if (2::nat) \<noteq> 0 \<and> length m \<le> 2
               then replicate (2 + 1 - length m) (CHR ''0'') @ m else m);
          k = length m
      in if (2::nat) \<noteq> 0 then take (k - 2) m @ ''.'' @ drop (k - 2) m else m) = twoDecimals n"
  proof cases
    case 1
    then show ?thesis
      by (simp add: numberToString_small twoDecimals_def digitChar_def numeral_2_eq_2)
  next
    case 2
    then have "n div 10 < 10" by simp
    with 2 show ?thesis
      by (simp add: numberToString_step numberToString_small twoDecimals_def digitChar_def)
  next
    case 3
    then show ?thesis
      by (simp add: numberToString_hundreds twoDecimals_def Let_def numberToString_nonempty)
  qed
  then show ?thesis
    by (simp add: toFixed_def n_def Let_def)
qed

lemma round_div:
  "0 < d \<Longrightarrow>
   nat \<lfloor>(of_nat s :: rat) / of_nat d * 100 + 1 / 2\<rfloor> = (200 * s + d) div (2 * d)"
proof -
  assume d: "0 < d"
  have "(of_nat s :: rat) / of_nat d * 100 + 1 / 2 = of_nat (200 * s + d) / of_nat (2 * d)"
    using d by (simp add: field_simps)
  then show ?thesis
    by (simp only: floor_divide_of_nat_eq nat_int)
qed

lemma formatSize_unfold:
  "formatSize n =
     (if n < 1024 then numberToString n @ '' Bytes''
      else if n < 1048576 then twoDecimals ((200 * n + 1024) div 2048) @ '' KB''
      else if n < 1073741824 then twoDecimals ((200 * n + 1048576) div 2097152) @ '' MB''
      else twoDecimals ((200 * n + 1073741824) div 2147483648) @ '' GB'')"
  using round_div [of 1024 n] round_div [of 1048576 n] round_div [of 1073741824 n]
  by (simp add: formatSize_def toFixed2_twoDecimals)


lemma twoDecimals_near:
  assumes "0 < d"
  shows "\<bar>(of_nat ((200 * n + d) div (2 * d)) :: rat) / 100 - of_nat n / of_nat d\<bar> \<le> 1 / 200"
proof -
  define q where "q = (200 * n + d) div (2 * d)"
  have lo: "2 * d * q \<le> 200 * n + d"
    unfolding q_def by simp
  have hi: "200 * n + d < 2 * d * (q + 1)"
    unfolding q_def using assms dividend_less_times_div [of "2 * d" "200 * n + d"]
    by simp
  have "(of_nat (2 * d * q) :: rat) \<le> of_nat (200 * n + d)"
    using lo by (simp only: of_nat_le_iff)
  then have lo': "(2 * of_nat d * of_nat q :: rat) \<le> 200 * of_nat n + of_nat d"
    by simp
  have "(of_nat (200 * n + d) :: rat) < of_nat (2 * d * (q + 1))"
    using hi by (simp only: of_nat_less_iff)
  then have hi': "(200 * of_nat n + of_nat d :: rat) < 2 * of_nat d * (of_nat q + 1)"
    by (simp add: algebra_simps)
  have dpos: "(0::rat) < of_nat d" using assms by simp
  have eq: "(of_nat q :: rat) / 100 - of_nat n / of_nat d
      = (2 * of_nat d * of_nat q - 200 * of_nat n) / (200 * of_nat d)"
    using dpos by (simp add: field_simps)
  have num: "\<bar>(2 * of_nat d * of_nat q - 200 * of_nat n :: rat)\<bar> \<le> of_nat d"
    using lo' hi' by (simp add: abs_le_iff algebra_simps)
  have "\<bar>(2 * of_nat d * of_nat q - 200 * of_nat n) / (200 * of_nat d :: rat)\<bar>
      = \<bar>(2 * of_nat d * of_nat q - 200 * of_nat n :: rat)\<bar> / (200 * of_nat d)"
    using dpos by (simp add: abs_divide)
  also have "\<dots> \<le> of_nat d / (200 * of_nat d)"
    using num dpos by (simp add: divide_right_mono)
  also have "\<dots> = 1 / 200"
    using dpos by simp
  finally show ?thesis
    unfolding q_def [symmetric] eq .
qed

section \<open>The display string read back\<close>

lemma isDigit_facts:
  "isDigit c \<Longrightarrow>
     c \<noteq> CHR '' '' \<and> c \<noteq> CHR ''K'' \<and> c \<noteq> CHR ''.'' \<and> c \<noteq> CHR ''+'' \<and> c \<noteq> CHR ''-'' \<and>
     \<not> isWhiteSpace c"
  by (auto simp: isDigit_def isWhiteSpace_def)

lemma twoDecimals_chars: "c \<in> set (twoDecimals q) \<Longrightarrow> isDigit c \<or> c = CHR ''.''"
  by (auto simp: twoDecimals_def dest: numberToString_digits intro: digitChar_isDigit)

lemma str_includes_suffix: "pat \<noteq> [] \<Longrightarrow> str_includes (s @ pat) pat"
proof (induction s)
  case Nil
  then show ?case by (cases pat) simp_all
next
  case (Cons c s)
  then show ?case by simp
qed

lemma str_includes_absent: "c \<notin> set s \<Longrightarrow> \<not> str_includes s (c # p)"
  by (induction s) auto

lemma replace_unit: "CHR '' '' \<notin> set s \<Longrightarrow> replace (s @ '' KB'') '' KB'' [] = s"
  by (induction s) auto

lemma trim_no_space: "\<forall>c\<in>set s. \<not> isWhiteSpace c \<Longrightarrow> trim s = s"
proof (cases s)
  case Nil
  then show ?thesis by (simp add: trim_def)
next
  case (Cons a t)
  assume h: "\<forall>c\<in>set s. \<not> isWhiteSpace c"
  with Cons have 1: "dropWhile isWhiteSpace s = s" by simp
  have "rev s \<noteq> []" using Cons by simp
  moreover from this have "hd (rev s) \<in> set (rev s)"
    by (rule hd_in_set)
  ultimately have "dropWhile isWhiteSpace (rev s) = rev s"
    using h by (simp add: dropWhile_eq_self_iff)
  with 1 show ?thesis by (simp add: trim_def)
qed

lemma parseFloat_decimal:
  assumes ip: "\<forall>c\<in>set ip. isDigit c" and ne: "ip \<noteq> []" and a: "isDigit a" and b: "isDigit b"
  shows "parseFloat (ip @ ''.'' @ [a, b])
       = Num (of_nat (digitsValue ip) + of_nat (10 * digitVal a + digitVal b) / 100)"
proof -
  let ?s = "ip @ ''.'' @ [a, b]"
  obtain c cs where ipc: "ip = c # cs" using ne by (cases ip) auto
  then have c: "isDigit c" using ip by simp
  have ws: "dropWhile isWhiteSpace ?s = ?s"
    using c isDigit_facts [of c] by (simp add: ipc)
  have hd: "hd ?s = c" by (simp add: ipc)
  have nd: "\<not> isDigit CHR ''.''" by (simp add: isDigit_def)
  have tw: "takeWhile isDigit ?s = ip"
    using ip nd by simp
  have dw: "dropWhile isDigit ?s = ''.'' @ [a, b]"
    using ip nd by simp
  have fp: "takeWhile isDigit [a, b] = [a, b]" "dropWhile isDigit [a, b] = []"
    using a b by simp_all
  have dv: "digitsValue [a, b] = 10 * digitVal a + digitVal b"
    by (simp add: digitsValue_def)
  have u: "unsignedLiteral ?s
      = Some (Some (of_nat (digitsValue ip) + of_nat (10 * digitVal a + digitVal b) / 100))"
    unfolding unsignedLiteral_def tw dw
    by (simp add: a b dv ne exponentPart_def scale10_def)
  have sgn: "c \<noteq> CHR ''-''" "c \<noteq> CHR ''+''"
    using isDigit_facts [of c] c by simp_all
  show ?thesis
    unfolding parseFloat_def ws Let_def hd using sgn u
    by simp
qed

lemma hundredths_split: "100 * (q div 100) + (10 * (q div 10 mod 10) + q mod 10) = (q::nat)"
proof -
  have "q mod (10 * 10) = 10 * (q div 10 mod 10) + q mod 10"
    by (rule mod_mult2_eq)
  then have "10 * (q div 10 mod 10) + q mod 10 = q mod 100"
    by simp
  then show ?thesis
    by (simp only: mult_div_mod_eq)
qed

lemma parseFloat_twoDecimals: "parseFloat (twoDecimals q) = Num (of_nat q / 100)"
proof -
  define h where "h = q div 100"
  define t where "t = q div 10 mod 10"
  define u where "u = q mod 10"
  have t: "t < 10" and u: "u < 10" by (simp_all add: t_def u_def)
  have q: "q = 100 * h + (10 * t + u)"
    unfolding h_def t_def u_def by (rule hundredths_split [symmetric])
  have d: "\<forall>c\<in>set (numberToString h). isDigit c"
    by (simp add: numberToString_digits)
  have "parseFloat (numberToString h @ ''.'' @ [digitChar t, digitChar u])
      = Num (of_nat (digitsValue (numberToString h))
             + of_nat (10 * digitVal (digitChar t) + digitVal (digitChar u)) / 100)"
    using t u by (intro parseFloat_decimal [OF d numberToString_nonempty] digitChar_isDigit)
  then have "parseFloat (twoDecimals q) = Num (of_nat h + of_nat (10 * t + u) / 100)"
    unfolding twoDecimals_def h_def [symmetric] t_def [symmetric] u_def [symmetric]
    by (simp only: digitsValue_numberToString digitVal_digitChar [OF t] digitVal_digitChar [OF u])
  moreover have "(of_nat h :: rat) + of_nat (10 * t + u) / 100 = of_nat (100 * h + (10 * t + u)) / 100"
    by simp
  ultimately show ?thesis
    by (simp only: q)
qed

lemma shouldCompress_KB: "shouldCompress (twoDecimals q @ '' KB'') = (25000 < q)"
proof -
  have sp: "CHR '' '' \<notin> set (twoDecimals q)"
    using twoDecimals_chars [of "CHR '' ''" q] isDigit_facts [of "CHR '' ''"] by auto
  have ws: "\<forall>c\<in>set (twoDecimals q). \<not> isWhiteSpace c"
  proof
    fix c
    assume "c \<in> set (twoDecimals q)"
    then have "isDigit c \<or> c = CHR ''.''" by (rule twoDecimals_chars)
    then show "\<not> isWhiteSpace c"
      using isDigit_facts [of c] by (auto simp: isWhiteSpace_def)
  qed
  have inc: "str_includes (twoDecimals q @ '' KB'') ''KB''"
    using str_includes_suffix [of "''KB''" "twoDecimals q @ '' ''"] by simp
  have "(250 :: rat) < of_nat q / 100 \<longleftrightarrow> 25000 < q"
  proof -
    have "(250 :: rat) < of_nat q / 100 \<longleftrightarrow> (of_nat 25000 :: rat) < of_nat q"
      by (simp add: field_simps)
    then show ?thesis by (simp only: of_nat_less_iff)
  qed
  then show ?thesis
    by (simp add: shouldCompress_def inc replace_unit [OF sp] trim_no_space [OF ws]
        parseFloat_twoDecimals del: of_nat_numeral)
qed

lemma shouldCompress_other_unit:
  "CHR ''K'' \<notin> set u \<Longrightarrow> shouldCompress (twoDecimals q @ u)"
proof -
  assume u: "CHR ''K'' \<notin> set u"
  have "CHR ''K'' \<notin> set (twoDecimals q)"
    using twoDecimals_chars [of "CHR ''K''" q] isDigit_facts [of "CHR ''K''"] by auto
  with u have "\<not> str_includes (twoDecimals q @ u) ''KB''"
    by (intro str_includes_absent) simp
  then show ?thesis by (simp add: shouldCompress_def)
qed

lemma shouldCompress_Bytes: "shouldCompress (numberToString n @ '' Bytes'')"
proof -
  have "CHR ''K'' \<notin> set (numberToString n)"
    using numberToString_digits [of "CHR ''K''" n] isDigit_facts [of "CHR ''K''"] by auto
  then have "\<not> str_includes (numberToString n @ '' Bytes'') ''KB''"
    by (intro str_includes_absent) simp
  then show ?thesis by (simp add: shouldCompress_def)
qed

lemma shouldCompress_formatSize:
  "shouldCompress (formatSize n) \<longleftrightarrow> n < 1024 \<or> 256006 \<le> n"
proof -
  consider "n < 1024" | "1024 \<le> n" "n < 1048576" | "1048576 \<le> n" "n < 1073741824"
    | "1073741824 \<le> n" by linarith
  then show ?thesis
  proof cases
    case 1
    then show ?thesis by (simp add: formatSize_unfold shouldCompress_Bytes)
  next
    case 2
    have "25000 < (200 * n + 1024) div 2048 \<longleftrightarrow> 25001 \<le> (200 * n + 1024) div 2048"
      by (simp only: Suc_le_eq [symmetric]) simp
    also have "\<dots> \<longleftrightarrow> 25001 * 2048 \<le> 200 * n + 1024"
      by (rule less_eq_div_iff_mult_less_eq) simp
    also have "\<dots> \<longleftrightarrow> 256006 \<le> n"
      by linarith
    finally have "25000 < (200 * n + 1024) div 2048 \<longleftrightarrow> 256006 \<le> n" .
    with 2 show ?thesis by (simp add: formatSize_unfold shouldCompress_KB)
  next
    case 3
    then show ?thesis by (simp add: formatSize_unfold shouldCompress_other_unit)
  next
    case 4
    then show ?thesis by (simp add: formatSize_unfold shouldCompress_other_unit)
  qed
qed

section \<open>Properties of the size formatting\<close>

text \<open>
  Claim C8. For a byte count \<open>n\<close>, \<open>formatSize n\<close> is: below 1024, the decimal
  digits of \<open>n\<close> followed by \<open>Bytes\<close>; below \<open>1024\<^sup>2\<close>, a two-decimal rendering of
  the hundredths nearest to \<open>n / 1024\<close> followed by \<open>KB\<close>; below \<open>1024\<^sup>3\<close>, the same
  for \<open>n / 1024\<^sup>2\<close> with \<open>MB\<close>; otherwise (for the byte counts a Number holds
  exactly, below \<open>2 ^ 53\<close>) the same for \<open>n / 1024\<^sup>3\<close> with \<open>GB\<close>. In particular
  \<open>formatSize 0 = "0 Bytes"\<close>, \<open>formatSize 1024 = "1.00 KB"\<close>,
  \<open>formatSize 1048576 = "1.00 MB"\<close> and \<open>formatSize 1073741824 = "1.00 GB"\<close>.
\<close>

theorem formatSize_thresholds:
  "formatSize 0 = ''0 Bytes'' \<and> formatSize 1024 = ''1.00 KB'' \<and>
   formatSize 1048576 = ''1.00 MB'' \<and> formatSize 1073741824 = ''1.00 GB'' \<and>
   (n < 1024 \<longrightarrow>
      formatSize n = numberToString n @ '' Bytes'' \<and> digitsValue (numberToString n) = n) \<and>
   (1024 \<le> n \<and> n < 1024 * 1024 \<longrightarrow>
      (\<exists>q. formatSize n = twoDecimals q @ '' KB'' \<and>
           \<bar>(of_nat q :: rat) / 100 - of_nat n / 1024\<bar> \<le> 1 / 200)) \<and>
   (1024 * 1024 \<le> n \<and> n < 1024 * 1024 * 1024 \<longrightarrow>
      (\<exists>q. formatSize n = twoDecimals q @ '' MB'' \<and>
           \<bar>(of_nat q :: rat) / 100 - of_nat n / (1024 * 1024)\<bar> \<le> 1 / 200)) \<and>
   (1024 * 1024 * 1024 \<le> n \<and> n < 2 ^ 53 \<longrightarrow>
      (\<exists>q. formatSize n = twoDecimals q @ '' GB'' \<and>
           \<bar>(of_nat q :: rat) / 100 - of_nat n / (1024 * 1024 * 1024)\<bar> \<le> 1 / 200))"
proof -
  have c0: "formatSize 0 = ''0 Bytes''"
    by (simp add: formatSize_unfold)
  have c1: "formatSize 1024 = ''1.00 KB''"
    by (simp add: formatSize_unfold twoDecimals_def digitChar_def)
  have c2: "formatSize 1048576 = ''1.00 MB''"
    by (simp add: formatSize_unfold twoDecimals_def digitChar_def)
  have c3: "formatSize 1073741824 = ''1.00 GB''"
    by (simp add: formatSize_unfold twoDecimals_def digitChar_def)
  have b: "n < 1024 \<longrightarrow>
      formatSize n = numberToString n @ '' Bytes'' \<and> digitsValue (numberToString n) = n"
    by (simp add: formatSize_unfold digitsValue_numberToString)
  have k: "1024 \<le> n \<and> n < 1024 * 1024 \<longrightarrow>
      (\<exists>q. formatSize n = twoDecimals q @ '' KB'' \<and>
           \<bar>(of_nat q :: rat) / 100 - of_nat n / 1024\<bar> \<le> 1 / 200)"
    using twoDecimals_near [of 1024 n] by (auto simp: formatSize_unfold)
  have m: "1024 * 1024 \<le> n \<and> n < 1024 * 1024 * 1024 \<longrightarrow>
      (\<exists>q. formatSize n = twoDecimals q @ '' MB'' \<and>
           \<bar>(of_nat q :: rat) / 100 - of_nat n / (1024 * 1024)\<bar> \<le> 1 / 200)"
    using twoDecimals_near [of 1048576 n] by (auto simp: formatSize_unfold)
  have g: "1024 * 1024 * 1024 \<le> n \<and> n < 2 ^ 53 \<longrightarrow>
      (\<exists>q. formatSize n = twoDecimals q @ '' GB'' \<and>
           \<bar>(of_nat q :: rat) / 100 - of_nat n / (1024 * 1024 * 1024)\<bar> \<le> 1 / 200)"
    using twoDecimals_near [of 1073741824 n] by (auto simp: formatSize_unfold)
  from c0 c1 c2 c3 b k m g show ?thesis by blast
qed

theorem formatSize_thresholds_witness:
  "formatSize 500 = ''500 Bytes'' \<and> digitsValue ''500'' = 500 \<and>
   (\<exists>q. formatSize 1536 = twoDecimals q @ '' KB'' \<and>
        \<bar>(of_nat q :: rat) / 100 - 1536 / 1024\<bar> \<le> 1 / 200) \<and>
   (\<exists>q. formatSize 3145728 = twoDecimals q @ '' MB'' \<and>
        \<bar>(of_nat q :: rat) / 100 - 3145728 / (1024 * 1024)\<bar> \<le> 1 / 200) \<and>
   (\<exists>q. formatSize 5368709120 = twoDecimals q @ '' GB'' \<and>
        \<bar>(of_nat q :: rat) / 100 - 5368709120 / (1024 * 1024 * 1024)\<bar> \<le> 1 / 200)"
  using formatSize_thresholds [of 500] formatSize_thresholds [of 1536]
    formatSize_thresholds [of 3145728] formatSize_thresholds [of 5368709120]
  by (simp add: digitChar_def)

text \<open>
  Claim C10. The two implementations of \<open>formatSize\<close>, the one of
  \<open>DynamicCompressImage\<close> and the one of \<open>ImageCollector\<close>, return the same string
  for every byte count.
\<close>

theorem formatSize_implementations_agree: "formatSize n = collector_formatSize n"
  by (simp add: formatSize_def collector_formatSize_def)

theorem formatSize_implementations_agree_witness:
  "formatSize 1536 = collector_formatSize 1536"
  using formatSize_implementations_agree [of 1536] .

section \<open>The calls made by the compression of one image\<close>

lemma writes_simps [simp]:
  "writes [] = []"
  "writes (SharpToFile inp ops p # evs) = SharpToFile inp ops p # writes evs"
  "writes (SharpToBuffer inp ops # evs) = writes evs"
  "writes (SharpMetadata inp # evs) = writes evs"
  "writes (StatSync p # evs) = writes evs"
  "writes (ConsoleLog s # evs) = writes evs"
  "writes (ConsoleError s e # evs) = writes evs"
  "writes (evs @ evs') = writes evs @ writes evs'"
  by (simp_all add: writes_def)

lemma reencode_writes: "reencode sh files ext q buf = (r, evs) \<Longrightarrow> writes evs = []"
  by (auto simp: reencode_def split: if_splits)

lemma reencode_result:
  "reencode sh files ext q buf = (Inr buf', evs) \<Longrightarrow>
     buf' = buf \<or>
     (\<exists>ops. SharpToBuffer (FromBuffer buf) ops \<in> set evs \<and>
            toBuffer sh files (FromBuffer buf) ops = Inr buf')"
  by (auto simp: reencode_def split: if_splits)

lemma compressStages_writes:
  "compressStages sh maxSize files ext buf = (r, evs) \<Longrightarrow> writes evs = []"
  by (auto simp: compressStages_def split: if_splits sum.splits prod.splits
      dest: reencode_writes)

lemma compressStages_result:
  assumes "compressStages sh maxSize files ext buf0 = (Inr buf, evs)"
  shows "buf = buf0 \<or>
     (\<exists>inp ops. SharpToBuffer inp ops \<in> set evs \<and> toBuffer sh files inp ops = Inr buf)"
proof (cases "maxSize < length buf0")
  case False
  with assms show ?thesis by (simp add: compressStages_def)
next
  case True
  obtain r1 evs1 where r1: "reencode sh files ext 80 buf0 = (r1, evs1)"
    by (cases "reencode sh files ext 80 buf0")
  show ?thesis
  proof (cases r1)
    case (Inl err)
    with assms True r1 show ?thesis by (simp add: compressStages_def)
  next
    case (Inr buf1)
    note one = reencode_result [OF r1 [unfolded Inr]]
    show ?thesis
    proof (cases "maxSize < length buf1")
      case False
      with assms True r1 Inr have "buf = buf1" "evs = evs1"
        by (simp_all add: compressStages_def)
      with one show ?thesis by blast
    next
      case over: True
      obtain r2 evs2 where r2: "reencode sh files ext 60 buf1 = (r2, evs2)"
        by (cases "reencode sh files ext 60 buf1")
      with assms True r1 Inr over have e: "r2 = Inr buf" "evs = evs1 @ evs2"
        by (simp_all add: compressStages_def)
      note two = reencode_result [OF r2 [unfolded e(1)]]
      from two show ?thesis
      proof
        assume "buf = buf1"
        with one e(2) show ?thesis by auto
      next
        assume "\<exists>ops. SharpToBuffer (FromBuffer buf1) ops \<in> set evs2 \<and>
            toBuffer sh files (FromBuffer buf1) ops = Inr buf"
        with e(2) show ?thesis by auto
      qed
    qed
  qed
qed

lemma compressImage_cases:
  assumes run: "compressImage sh maxSize img files = (r, files', evs)"
    and ops: "ops = (if widthGt (width img) 1500 then [Resize 1400 True] else [])"
    and first: "first = SharpToBuffer (FromPath (path img)) ops"
    and caught: "caught = ConsoleError (''Error compressing '' @ path img @ '':'')"
  obtains
    (decode_failed) err where
      "toBuffer sh files (FromPath (path img)) ops = Inl err"
      "r = Inl err" "files' = files" "evs = [first, caught err]"
  | (stage_failed) buf0 err evs1 where
      "toBuffer sh files (FromPath (path img)) ops = Inr buf0"
      "compressStages sh maxSize files (extension img) buf0 = (Inl err, evs1)"
      "r = Inl err" "files' = files" "evs = first # evs1 @ [caught err]"
  | (write_failed) buf0 buf evs1 err where
      "toBuffer sh files (FromPath (path img)) ops = Inr buf0"
      "compressStages sh maxSize files (extension img) buf0 = (Inr buf, evs1)"
      "toFile sh files (FromBuffer buf) [] (path img) = (Some err, files')"
      "r = Inl err"
      "evs = first # evs1 @ [SharpToFile (FromBuffer buf) [] (path img), caught err]"
  | (stat_failed) buf0 buf evs1 err where
      "toBuffer sh files (FromPath (path img)) ops = Inr buf0"
      "compressStages sh maxSize files (extension img) buf0 = (Inr buf, evs1)"
      "toFile sh files (FromBuffer buf) [] (path img) = (None, files')"
      "statSync_size files' (path img) = Inl err"
      "r = Inl err"
      "evs = first # evs1 @
         [SharpToFile (FromBuffer buf) [] (path img), StatSync (path img), caught err]"
  | (success) buf0 buf evs1 newSize where
      "toBuffer sh files (FromPath (path img)) ops = Inr buf0"
      "compressStages sh maxSize files (extension img) buf0 = (Inr buf, evs1)"
      "toFile sh files (FromBuffer buf) [] (path img) = (None, files')"
      "statSync_size files' (path img) = Inr newSize"
      "r = Inr newSize"
      "evs = first # evs1 @ [SharpToFile (FromBuffer buf) [] (path img), StatSync (path img)]"
proof (cases "toBuffer sh files (FromPath (path img)) ops")
  case (Inl err)
  with run have "r = Inl err \<and> files' = files \<and> evs = [first, caught err]"
    by (simp add: compressImage_def Let_def ops [symmetric] first caught)
  with Inl show thesis by (intro decode_failed) simp_all
next
  case (Inr buf0)
  obtain s evs1 where st: "compressStages sh maxSize files (extension img) buf0 = (s, evs1)"
    by (cases "compressStages sh maxSize files (extension img) buf0")
  show thesis
  proof (cases s)
    case (Inl err)
    with run Inr st have "r = Inl err \<and> files' = files \<and> evs = first # evs1 @ [caught err]"
      by (simp add: compressImage_def Let_def ops [symmetric] first caught)
    with Inr st Inl show thesis by (intro stage_failed) simp_all
  next
    case buf: (Inr buf)
    obtain w files1 where wr: "toFile sh files (FromBuffer buf) [] (path img) = (w, files1)"
      by (cases "toFile sh files (FromBuffer buf) [] (path img)")
    show thesis
    proof (cases w)
      case (Some err)
      with run Inr st buf wr have "r = Inl err \<and> files' = files1 \<and>
          evs = first # evs1 @ [SharpToFile (FromBuffer buf) [] (path img), caught err]"
        by (simp add: compressImage_def Let_def ops [symmetric] first caught)
      with Inr st buf wr Some show thesis by (intro write_failed) simp_all
    next
      case None
      show thesis
      proof (cases "statSync_size files1 (path img)")
        case (Inl err)
        with run Inr st buf wr None have "r = Inl err \<and> files' = files1 \<and>
            evs = first # evs1 @
              [SharpToFile (FromBuffer buf) [] (path img), StatSync (path img), caught err]"
          by (simp add: compressImage_def Let_def ops [symmetric] first caught)
        with Inr st buf wr None Inl show thesis by (intro stat_failed) simp_all
      next
        case size: (Inr newSize)
        with run Inr st buf wr None have "r = Inr newSize \<and> files' = files1 \<and>
            evs = first # evs1 @ [SharpToFile (FromBuffer buf) [] (path img), StatSync (path img)]"
          by (simp add: compressImage_def Let_def ops [symmetric] first caught)
        with Inr st buf wr None size show thesis by (intro success) simp_all
      qed
    qed
  qed
qed

lemmas run_defs =
  compressImage_def compressStages_def reencode_def statSync_size_def widthGt_def
  example_sharp_def failing_write_sharp_def example_encode_def example_load_def Let_def

lemma collector_formatSize_eq: "collector_formatSize n = formatSize n"
  by (simp add: formatSize_def collector_formatSize_def)

lemmas compressImage_elim =
  compressImage_cases [OF _ refl refl refl, consumes 1,
    case_names decode_failed stage_failed write_failed stat_failed success]

lemma compressStages_head:
  assumes "compressStages sh maxSize files ext buf0 = (s, evs1)"
  shows "if maxSize < length buf0 \<and> (ext = ''.jpg'' \<or> ext = ''.jpeg'')
         then \<exists>rest. evs1 = SharpToBuffer (FromBuffer buf0) [Jpeg 80] # rest
         else if maxSize < length buf0 \<and> ext = ''.png''
         then \<exists>rest. evs1 = SharpToBuffer (FromBuffer buf0) [Png 9] # rest
         else evs1 = [] \<and> s = Inr buf0"
proof (cases "maxSize < length buf0")
  case False
  with assms show ?thesis by (auto simp: compressStages_def)
next
  case over: True
  show ?thesis
  proof (cases "ext = ''.jpg'' \<or> ext = ''.jpeg''")
    case True
    then have r: "reencode sh files ext 80 buf0 =
        (toBuffer sh files (FromBuffer buf0) [Jpeg 80], [SharpToBuffer (FromBuffer buf0) [Jpeg 80]])"
      by (simp add: reencode_def)
    from assms over True show ?thesis
      unfolding compressStages_def r
      by (auto split: sum.splits prod.splits if_splits)
  next
    case False
    show ?thesis
    proof (cases "ext = ''.png''")
      case True
      then have r: "reencode sh files ext 80 buf0 =
          (toBuffer sh files (FromBuffer buf0) [Png 9], [SharpToBuffer (FromBuffer buf0) [Png 9]])"
        by (simp add: reencode_def)
      from assms over True show ?thesis
        unfolding compressStages_def r
        by (auto split: sum.splits prod.splits if_splits)
    next
      case other: False
      with False have "\<And>q. reencode sh files ext q buf0 = (Inr buf0, [])"
        by (simp add: reencode_def)
      with assms over False other show ?thesis
        by (auto simp: compressStages_def)
    qed
  qed
qed

lemma compressImagesFromJson_append:
  "compressImagesFromJson sh maxSize (xs @ ys) files =
     (case compressImagesFromJson sh maxSize xs files of
        (files1, evs1) \<Rightarrow>
          (case compressImagesFromJson sh maxSize ys files1 of
             (files2, evs2) \<Rightarrow> (files2, evs1 @ evs2)))"
  by (induction xs arbitrary: files) (auto split: prod.splits)

section \<open>The size policy\<close>

text \<open>
  Claim C1 as stated fails. The claim selects a record iff its byte count exceeds the
  budget. A file of 256003 bytes exceeds the budget of \<open>250 * 1024 = 256000\<close> bytes, but
  its display string is \<open>250.00 KB\<close> and \<open>shouldCompress\<close>, which reads that string,
  does not select it.
\<close>

theorem shouldCompress_rounding_counterexample:
  "\<not> (shouldCompress (collector_formatSize 256003) \<longleftrightarrow> 250 * 1024 < (256003 :: nat))"
  by (simp add: collector_formatSize_eq shouldCompress_formatSize)

text \<open>
  Claim C1, amended. \<open>shouldCompress\<close> takes the display string of the record, not its
  byte count, and compares with the constant 250 when the string has the unit
  \<open>KB\<close>; the budget is no argument of it. For a record of at least 1024 bytes whose
  display string is the collector's \<open>formatSize\<close> of its byte count \<open>n\<close>, the record is
  selected iff \<open>256006 \<le> n\<close>, that is iff the size shown with two decimals exceeds
  \<open>250.00 KB\<close> or has the unit \<open>MB\<close> or \<open>GB\<close>. A record that is not selected is
  only logged as skipped: no call to the codec is made for it and the file system is
  unchanged.
\<close>

theorem shouldCompress_display_string:
  assumes "1024 \<le> n" and "n < 2 ^ 53" and "sizeStr img = collector_formatSize n"
  shows "(shouldCompress (sizeStr img) \<longleftrightarrow> 256006 \<le> n) \<and>
         (n < 256006 \<longrightarrow>
            processImage sh maxSize img files =
              (files,
               [ConsoleLog (''Skipped: '' @ path img @ '' (Size: '' @ sizeStr img
                            @ '', Width: '' @ widthToString (width img) @ '')'')]))"
proof -
  have sel: "shouldCompress (sizeStr img) \<longleftrightarrow> 256006 \<le> n"
    using assms(1,3) by (simp add: collector_formatSize_eq shouldCompress_formatSize)
  then show ?thesis
    by (simp add: processImage_def)
qed

text \<open>
  The amended claim C1 at two records: 204800 bytes (\<open>200.00 KB\<close>), skipped, and
  300000 bytes (\<open>292.97 KB\<close>), selected.
\<close>

theorem shouldCompress_display_string_witness:
  "\<not> shouldCompress ''200.00 KB'' \<and>
   processImage example_sharp 256000
     \<lparr>name = ''a'', path = ''/img/a.png'', sizeStr = ''200.00 KB'', extension = ''.png'',
      width = Some 800, height = Some 600\<rparr>
     [''/img/a.png'' \<mapsto> [1, 2, 3]]
   = ([''/img/a.png'' \<mapsto> [1, 2, 3]],
      [ConsoleLog ''Skipped: /img/a.png (Size: 200.00 KB, Width: 800)'']) \<and>
   shouldCompress ''292.97 KB''"
  using shouldCompress_display_string [of 204800
      "\<lparr>name = ''a'', path = ''/img/a.png'', sizeStr = ''200.00 KB'', extension = ''.png'',
        width = Some 800, height = Some 600\<rparr>"
      example_sharp 256000 "[''/img/a.png'' \<mapsto> [1, 2, 3]]"]
    shouldCompress_display_string [of 300000
      "\<lparr>name = ''b'', path = ''/img/b.png'', sizeStr = ''292.97 KB'', extension = ''.png'',
        width = Some 800, height = Some 600\<rparr>"
      example_sharp 256000 "[''/img/b.png'' \<mapsto> [1, 2, 3]]"]
  by (simp add: collector_formatSize_eq formatSize_unfold twoDecimals_def digitChar_def
      widthToString_def)

section \<open>The commit\<close>

text \<open>
  Claim C2 as stated fails. The claim has the final buffer written to a temporary
  file and renamed over the original, so that a failed commit leaves the original
  untouched. With a file writer that truncates its destination and then fails, the
  only write that \<open>compressImage\<close> asks for goes to the path of the record itself, and
  after the failure the file at that path is empty, where it held three bytes.
\<close>

theorem commit_in_place_counterexample:
  "compressImage failing_write_sharp 4
     \<lparr>name = ''a'', path = ''/img/a.png'', sizeStr = ''3 Bytes'', extension = ''.png'',
      width = Some 800, height = Some 600\<rparr>
     [''/img/a.png'' \<mapsto> [1, 2, 3]]
   = (Inl (SharpError ''write failed''),
      [''/img/a.png'' \<mapsto> []],
      [SharpToBuffer (FromPath ''/img/a.png'') [],
       SharpToFile (FromBuffer [1, 2, 3]) [] ''/img/a.png'',
       ConsoleError ''Error compressing /img/a.png:'' (SharpError ''write failed'')])"
  by (simp add: run_defs)

text \<open>
  Claim C2, amended. A record reaches the commit step when the first \<open>toBuffer\<close> call
  and the stages return a buffer; that buffer is the final one. For every such record
  \<open>compressImage\<close> asks for exactly one write: the codec's \<open>toFile\<close> of the final buffer
  with the record's own path as destination, after the calls of the stages and before
  anything else. No temporary file is written and nothing is renamed. The file system
  afterwards is the one this call leaves, whether it succeeds or fails, and its error
  is the error of \<open>compressImage\<close>. A record that does not reach the commit step has
  no write and leaves the file system unchanged.
\<close>

theorem compressImage_writes_in_place:
  assumes run: "compressImage sh maxSize img files = (r, files', evs)"
  shows
    "(\<forall>buf0 buf evs1.
        toBuffer sh files (FromPath (path img))
          (if widthGt (width img) 1500 then [Resize 1400 True] else []) = Inr buf0 \<and>
        compressStages sh maxSize files (extension img) buf0 = (Inr buf, evs1) \<longrightarrow>
          (\<exists>rest. evs = SharpToBuffer (FromPath (path img))
                          (if widthGt (width img) 1500 then [Resize 1400 True] else [])
                        # evs1 @ SharpToFile (FromBuffer buf) [] (path img) # rest \<and>
                  writes rest = []) \<and>
          writes evs = [SharpToFile (FromBuffer buf) [] (path img)] \<and>
          files' = snd (toFile sh files (FromBuffer buf) [] (path img)) \<and>
          (\<forall>err. fst (toFile sh files (FromBuffer buf) [] (path img)) = Some err
                 \<longrightarrow> r = Inl err)) \<and>
     ((\<exists>err. toBuffer sh files (FromPath (path img))
              (if widthGt (width img) 1500 then [Resize 1400 True] else []) = Inl err) \<or>
      (\<exists>buf0 err evs1.
          toBuffer sh files (FromPath (path img))
            (if widthGt (width img) 1500 then [Resize 1400 True] else []) = Inr buf0 \<and>
          compressStages sh maxSize files (extension img) buf0 = (Inl err, evs1)) \<longrightarrow>
        writes evs = [] \<and> files' = files) \<and>
     ((writes evs = [] \<and> files' = files) \<or>
      (\<exists>buf. writes evs = [SharpToFile (FromBuffer buf) [] (path img)] \<and>
             files' = snd (toFile sh files (FromBuffer buf) [] (path img))))"
proof -
  let ?ops = "if widthGt (width img) 1500 then [Resize 1400 True] else []"
  let ?first = "SharpToBuffer (FromPath (path img)) ?ops"
  have reached:
    "(\<exists>rest. evs = ?first # evs1 @ SharpToFile (FromBuffer buf) [] (path img) # rest \<and>
             writes rest = []) \<and>
     writes evs = [SharpToFile (FromBuffer buf) [] (path img)] \<and>
     files' = snd (toFile sh files (FromBuffer buf) [] (path img)) \<and>
     (\<forall>err. fst (toFile sh files (FromBuffer buf) [] (path img)) = Some err \<longrightarrow> r = Inl err)"
    if dec: "toBuffer sh files (FromPath (path img)) ?ops = Inr buf0"
      and st: "compressStages sh maxSize files (extension img) buf0 = (Inr buf, evs1)"
    for buf0 buf evs1
    using run
  proof (cases rule: compressImage_elim)
    case (decode_failed err)
    with dec show ?thesis by simp
  next
    case (stage_failed b err es)
    with dec st show ?thesis by simp
  next
    case (write_failed b bf es err)
    with dec st have e: "bf = buf" "es = evs1" by simp_all
    show ?thesis
      using write_failed(3,4,5) compressStages_writes [OF st] unfolding e by simp
  next
    case (stat_failed b bf es err)
    with dec st have e: "bf = buf" "es = evs1" by simp_all
    show ?thesis
      using stat_failed(3,5,6) compressStages_writes [OF st] unfolding e by simp
  next
    case (success b bf es newSize)
    with dec st have e: "bf = buf" "es = evs1" by simp_all
    show ?thesis
      using success(3,5,6) compressStages_writes [OF st] unfolding e by simp
  qed
  have missed: "writes evs = [] \<and> files' = files"
    if "(\<exists>err. toBuffer sh files (FromPath (path img)) ?ops = Inl err) \<or>
        (\<exists>buf0 err evs1.
           toBuffer sh files (FromPath (path img)) ?ops = Inr buf0 \<and>
           compressStages sh maxSize files (extension img) buf0 = (Inl err, evs1))"
    using run
  proof (cases rule: compressImage_elim)
    case (decode_failed err)
    then show ?thesis by simp
  next
    case (stage_failed b err es)
    then show ?thesis using compressStages_writes [OF stage_failed(2)] by simp
  next
    case (write_failed b bf es err)
    with that show ?thesis by auto
  next
    case (stat_failed b bf es err)
    with that show ?thesis by auto
  next
    case (success b bf es newSize)
    with that show ?thesis by auto
  qed
  have bound: "(writes evs = [] \<and> files' = files) \<or>
      (\<exists>buf. writes evs = [SharpToFile (FromBuffer buf) [] (path img)] \<and>
             files' = snd (toFile sh files (FromBuffer buf) [] (path img)))"
    using run
  proof (cases rule: compressImage_elim)
    case (decode_failed err)
    then show ?thesis by simp
  next
    case (stage_failed buf0 err evs1)
    then show ?thesis using compressStages_writes [OF stage_failed(2)] by simp
  next
    case (write_failed buf0 buf evs1 err)
    then show ?thesis using compressStages_writes [OF write_failed(2)] by simp
  next
    case (stat_failed buf0 buf evs1 err)
    then show ?thesis using compressStages_writes [OF stat_failed(2)] by simp
  next
    case (success buf0 buf evs1 newSize)
    then show ?thesis using compressStages_writes [OF success(2)] by simp
  qed
  from reached missed bound show ?thesis by blast
qed

text \<open>
  The amended claim C2 at the run above, where the one write goes to the path of the
  record and leaves the file empty, and at a record whose file is missing, which has
  no write.
\<close>

theorem compressImage_writes_in_place_witness:
  "writes [SharpToBuffer (FromPath ''/img/a.png'') [],
           SharpToFile (FromBuffer [1, 2, 3]) [] ''/img/a.png'',
           ConsoleError ''Error compressing /img/a.png:'' (SharpError ''write failed'')]
     = [SharpToFile (FromBuffer [1, 2, 3]) [] ''/img/a.png''] \<and>
   [''/img/a.png'' \<mapsto> []]
     = snd (toFile failing_write_sharp [''/img/a.png'' \<mapsto> [1, 2, 3]]
              (FromBuffer [1, 2, 3]) [] ''/img/a.png'') \<and>
   writes [SharpToBuffer (FromPath ''/img/gone.png'') [],
           ConsoleError ''Error compressing /img/gone.png:''
             (SharpError ''Input file is missing'')] = []"
proof -
  let ?img = "\<lparr>name = ''a'', path = ''/img/a.png'', sizeStr = ''3 Bytes'', extension = ''.png'',
      width = Some 800, height = Some 600\<rparr>"
  let ?files = "[''/img/a.png'' \<mapsto> [1, 2, 3 :: 8 word]]"
  have run: "compressImage failing_write_sharp 4 ?img ?files
   = (Inl (SharpError ''write failed''),
      [''/img/a.png'' \<mapsto> []],
      [SharpToBuffer (FromPath ''/img/a.png'') [],
       SharpToFile (FromBuffer [1, 2, 3]) [] ''/img/a.png'',
       ConsoleError ''Error compressing /img/a.png:'' (SharpError ''write failed'')])"
    by (simp add: run_defs)
  have dec: "toBuffer failing_write_sharp ?files (FromPath (path ?img))
      (if widthGt (width ?img) 1500 then [Resize 1400 True] else []) = Inr [1, 2, 3]"
    by (simp add: run_defs)
  have st: "compressStages failing_write_sharp 4 ?files (extension ?img) [1, 2, 3]
      = (Inr [1, 2, 3], [])"
    by (simp add: run_defs)
  let ?gone = "\<lparr>name = ''gone'', path = ''/img/gone.png'', sizeStr = ''1.00 MB'',
      extension = ''.png'', width = Some 800, height = Some 600\<rparr>"
  have run2: "compressImage example_sharp 10 ?gone ?files
      = (Inl (SharpError ''Input file is missing''), ?files,
         [SharpToBuffer (FromPath ''/img/gone.png'') [],
          ConsoleError ''Error compressing /img/gone.png:'' (SharpError ''Input file is missing'')])"
    by (simp add: run_defs)
  have dec2: "toBuffer example_sharp ?files (FromPath (path ?gone))
      (if widthGt (width ?gone) 1500 then [Resize 1400 True] else [])
      = Inl (SharpError ''Input file is missing'')"
    by (simp add: run_defs)
  from compressImage_writes_in_place [OF run] dec st
  have a: "writes [SharpToBuffer (FromPath ''/img/a.png'') [],
           SharpToFile (FromBuffer [1, 2, 3]) [] ''/img/a.png'',
           ConsoleError ''Error compressing /img/a.png:'' (SharpError ''write failed'')]
     = [SharpToFile (FromBuffer [1, 2, 3]) [] (path ?img)] \<and>
     [''/img/a.png'' \<mapsto> []]
     = snd (toFile failing_write_sharp ?files (FromBuffer [1, 2, 3]) [] (path ?img))"
    by blast
  from compressImage_writes_in_place [OF run2] dec2
  have b: "writes [SharpToBuffer (FromPath ''/img/gone.png'') [],
           ConsoleError ''Error compressing /img/gone.png:''
             (SharpError ''Input file is missing'')] = []"
    by blast
  from a b show ?thesis by simp
qed

text \<open>
  Claim C9. A call of \<open>compressImage\<close> that succeeds has asked for exactly one write:
  the codec's \<open>toFile\<close> onto the path of the record, of a buffer that an earlier
  \<open>toBuffer\<close> call of the codec returned (the file decoded and encoded again, also
  when no resize was asked for and no size check failed). The file system afterwards
  is the one this write leaves, and the result is the size of the file then found at
  the path.
\<close>

theorem compressImage_success_commits:
  assumes "compressImage sh maxSize img files = (Inr newSize, files', evs)"
  shows "\<exists>buf inp ops.
           writes evs = [SharpToFile (FromBuffer buf) [] (path img)] \<and>
           SharpToBuffer inp ops \<in> set evs \<and> toBuffer sh files inp ops = Inr buf \<and>
           toFile sh files (FromBuffer buf) [] (path img) = (None, files') \<and>
           statSync_size files' (path img) = Inr newSize"
  using assms
proof (cases rule: compressImage_elim)
  case (success buf0 buf evs1 n)
  have w: "writes evs = [SharpToFile (FromBuffer buf) [] (path img)]"
    using success(6) compressStages_writes [OF success(2)] by simp
  have "\<exists>inp ops. SharpToBuffer inp ops \<in> set evs \<and> toBuffer sh files inp ops = Inr buf"
    using compressStages_result [OF success(2)]
  proof
    assume same: "buf = buf0"
    have "SharpToBuffer (FromPath (path img))
            (if widthGt (width img) 1500 then [Resize 1400 True] else []) \<in> set evs"
      unfolding success(6) by simp
    with success(1) same show ?thesis by blast
  next
    assume "\<exists>inp ops. SharpToBuffer inp ops \<in> set evs1 \<and> toBuffer sh files inp ops = Inr buf"
    with success(6) show ?thesis by auto
  qed
  with w success(3,4,5) show ?thesis by auto
qed simp_all

text \<open>
  Claim C9 at a record of width 800 whose buffer is within the budget: the file is
  written all the same.
\<close>

theorem compressImage_success_commits_witness:
  "\<exists>buf inp ops.
     writes [SharpToBuffer (FromPath ''/img/a.png'') [],
             SharpToFile (FromBuffer [1, 2]) [] ''/img/a.png'',
             StatSync ''/img/a.png'']
       = [SharpToFile (FromBuffer buf) [] ''/img/a.png''] \<and>
     SharpToBuffer inp ops \<in> set [SharpToBuffer (FromPath ''/img/a.png'') [],
             SharpToFile (FromBuffer [1, 2]) [] ''/img/a.png'',
             StatSync ''/img/a.png''] \<and>
     toBuffer example_sharp [''/img/a.png'' \<mapsto> [1, 0, 2]] inp ops = Inr buf \<and>
     toFile example_sharp [''/img/a.png'' \<mapsto> [1, 0, 2]] (FromBuffer buf) [] ''/img/a.png''
       = (None, [''/img/a.png'' \<mapsto> [1, 2]]) \<and>
     statSync_size [''/img/a.png'' \<mapsto> [1, 2]] ''/img/a.png'' = Inr 2"
proof -
  have run: "compressImage example_sharp 10
     \<lparr>name = ''a'', path = ''/img/a.png'', sizeStr = ''3 Bytes'', extension = ''.png'',
      width = Some 800, height = Some 600\<rparr>
     [''/img/a.png'' \<mapsto> [1, 0, 2]]
   = (Inr 2,
      [''/img/a.png'' \<mapsto> [1, 2]],
      [SharpToBuffer (FromPath ''/img/a.png'') [],
       SharpToFile (FromBuffer [1, 2]) [] ''/img/a.png'',
       StatSync ''/img/a.png''])"
    by (simp add: run_defs)
  from compressImage_success_commits [OF run] show ?thesis by simp
qed

section \<open>The stages\<close>

text \<open>
  Claim C3 as stated fails. The claim keeps the buffer of the first PNG re-encoding
  as the final buffer. For a \<open>.png\<close> record of seven bytes and a budget of four, the
  first re-encoding returns six bytes, a second re-encoding at level 9 is applied to
  them, and its five bytes are what is written.
\<close>

theorem png_second_stage_counterexample:
  "compressImage example_sharp 4
     \<lparr>name = ''a'', path = ''/img/a.png'', sizeStr = ''7 Bytes'', extension = ''.png'',
      width = Some 800, height = Some 600\<rparr>
     [''/img/a.png'' \<mapsto> [1, 2, 3, 4, 5, 6, 7]]
   = (Inr 5,
      [''/img/a.png'' \<mapsto> [1, 2, 3, 4, 5]],
      [SharpToBuffer (FromPath ''/img/a.png'') [],
       SharpToBuffer (FromBuffer [1, 2, 3, 4, 5, 6, 7]) [Png 9],
       SharpToBuffer (FromBuffer [1, 2, 3, 4, 5, 6]) [Png 9],
       SharpToFile (FromBuffer [1, 2, 3, 4, 5]) [] ''/img/a.png'',
       StatSync ''/img/a.png'']) \<and>
   toBuffer example_sharp [''/img/a.png'' \<mapsto> [1, 2, 3, 4, 5, 6, 7]]
     (FromBuffer [1, 2, 3, 4, 5, 6, 7]) [Png 9] = Inr [1, 2, 3, 4, 5, 6]"
  by (simp add: run_defs)

text \<open>
  Claim C3, amended. For a \<open>.png\<close> record whose buffer is over the budget before and
  after the first re-encoding at compression level 9, a second re-encoding at level 9
  is applied to the buffer of the first; its result, within the budget or not, is the
  final buffer, which is written to the path of the record, and the call succeeds
  with the size of the written file. No further stage runs.
\<close>

theorem png_second_reencode:
  assumes "extension img = ''.png''"
    and "toBuffer sh files (FromPath (path img))
           (if widthGt (width img) 1500 then [Resize 1400 True] else []) = Inr buf0"
    and "maxSize < length buf0"
    and "toBuffer sh files (FromBuffer buf0) [Png 9] = Inr buf1"
    and "maxSize < length buf1"
    and "toBuffer sh files (FromBuffer buf1) [Png 9] = Inr buf2"
    and "toFile sh files (FromBuffer buf2) [] (path img) = (None, files')"
    and "statSync_size files' (path img) = Inr newSize"
  shows "compressImage sh maxSize img files =
     (Inr newSize, files',
      [SharpToBuffer (FromPath (path img))
         (if widthGt (width img) 1500 then [Resize 1400 True] else []),
       SharpToBuffer (FromBuffer buf0) [Png 9],
       SharpToBuffer (FromBuffer buf1) [Png 9],
       SharpToFile (FromBuffer buf2) [] (path img),
       StatSync (path img)])"
proof -
  have "compressStages sh maxSize files ''.png'' buf0 =
      (Inr buf2, [SharpToBuffer (FromBuffer buf0) [Png 9], SharpToBuffer (FromBuffer buf1) [Png 9]])"
    using assms(3-6) by (simp add: compressStages_def reencode_def)
  with assms(1,2,7,8) show ?thesis
    by (simp add: compressImage_def Let_def)
qed

text \<open>
  The amended claim C3 at the run above.
\<close>

theorem png_second_reencode_witness:
  "compressImage example_sharp 4
     \<lparr>name = ''a'', path = ''/img/a.png'', sizeStr = ''7 Bytes'', extension = ''.png'',
      width = Some 800, height = Some 600\<rparr>
     [''/img/a.png'' \<mapsto> [1, 2, 3, 4, 5, 6, 7]]
   = (Inr 5,
      [''/img/a.png'' \<mapsto> [1, 2, 3, 4, 5]],
      [SharpToBuffer (FromPath ''/img/a.png'') [],
       SharpToBuffer (FromBuffer [1, 2, 3, 4, 5, 6, 7]) [Png 9],
       SharpToBuffer (FromBuffer [1, 2, 3, 4, 5, 6]) [Png 9],
       SharpToFile (FromBuffer [1, 2, 3, 4, 5]) [] ''/img/a.png'',
       StatSync ''/img/a.png''])"
  using png_second_reencode [of
      "\<lparr>name = ''a'', path = ''/img/a.png'', sizeStr = ''7 Bytes'', extension = ''.png'',
        width = Some 800, height = Some 600\<rparr>"
      example_sharp "[''/img/a.png'' \<mapsto> [1, 2, 3, 4, 5, 6, 7]]"
      "[1, 2, 3, 4, 5, 6, 7]" 4 "[1, 2, 3, 4, 5, 6]" "[1, 2, 3, 4, 5]"
      "[''/img/a.png'' \<mapsto> [1, 2, 3, 4, 5]]" 5]
  by (simp add: statSync_size_def widthGt_def example_sharp_def example_encode_def
      example_load_def)

text \<open>
  Claim C7 as stated fails. The claim passes the original bytes on unchanged when
  the width is at most 1500. For a record of width 800 and a file of the bytes
  \<open>1, 0, 2\<close>, the buffer that reaches the commit is the codec's encoding \<open>1, 2\<close> of the
  file, not the bytes of the file.
\<close>

theorem no_resize_reencodes_counterexample:
  "compressImage example_sharp 10
     \<lparr>name = ''a'', path = ''/img/a.png'', sizeStr = ''3 Bytes'', extension = ''.png'',
      width = Some 800, height = Some 600\<rparr>
     [''/img/a.png'' \<mapsto> [1, 0, 2]]
   = (Inr 2,
      [''/img/a.png'' \<mapsto> [1, 2]],
      [SharpToBuffer (FromPath ''/img/a.png'') [],
       SharpToFile (FromBuffer [1, 2]) [] ''/img/a.png'',
       StatSync ''/img/a.png''])"
  by (simp add: run_defs)

text \<open>
  Claim C7, amended. The first call of \<open>compressImage\<close> is the codec's \<open>toBuffer\<close> on
  the file at the path of the record: with the one operation \<open>resize\<close> to width 1400
  and \<open>withoutEnlargement\<close> set (no height, so the codec keeps the aspect ratio) when
  the width of the record exceeds 1500, and with no operation when the width is at
  most 1500 or undefined. In both cases the buffer this call returns, which is the
  codec's encoding and not necessarily the bytes of the file, is what the next step
  receives: the first re-encoding when it is over the budget and the extension is
  \<open>.jpg\<close>, \<open>.jpeg\<close> or \<open>.png\<close>, the commit otherwise.
\<close>

theorem resize_stage_gating:
  assumes "compressImage sh maxSize img files = (r, files', evs)"
  shows "(\<forall>w. width img = Some w \<and> 1500 < w \<longrightarrow>
            take 1 evs = [SharpToBuffer (FromPath (path img)) [Resize 1400 True]]) \<and>
         ((\<forall>w. width img = Some w \<longrightarrow> w \<le> 1500) \<longrightarrow>
            take 1 evs = [SharpToBuffer (FromPath (path img)) []]) \<and>
         (\<forall>inp ops buf0.
            take 1 evs = [SharpToBuffer inp ops] \<and> toBuffer sh files inp ops = Inr buf0 \<longrightarrow>
            take 1 (drop 1 evs) =
              [if maxSize < length buf0 \<and> (extension img = ''.jpg'' \<or> extension img = ''.jpeg'')
               then SharpToBuffer (FromBuffer buf0) [Jpeg 80]
               else if maxSize < length buf0 \<and> extension img = ''.png''
               then SharpToBuffer (FromBuffer buf0) [Png 9]
               else SharpToFile (FromBuffer buf0) [] (path img)])"
proof -
  let ?ops = "if widthGt (width img) 1500 then [Resize 1400 True] else []"
  let ?first = "SharpToBuffer (FromPath (path img)) ?ops"
  have wide: "\<And>w. width img = Some w \<Longrightarrow> 1500 < w \<Longrightarrow> ?ops = [Resize 1400 True]"
    by (simp add: widthGt_def)
  have narrow: "(\<forall>w. width img = Some w \<longrightarrow> w \<le> 1500) \<Longrightarrow> ?ops = []"
    by (cases "width img") (auto simp: widthGt_def)
  have first: "take 1 evs = [?first]"
    using assms by (cases rule: compressImage_elim) simp_all
  have nxt: "take 1 (drop 1 evs) =
              [if maxSize < length buf0 \<and> (extension img = ''.jpg'' \<or> extension img = ''.jpeg'')
               then SharpToBuffer (FromBuffer buf0) [Jpeg 80]
               else if maxSize < length buf0 \<and> extension img = ''.png''
               then SharpToBuffer (FromBuffer buf0) [Png 9]
               else SharpToFile (FromBuffer buf0) [] (path img)]"
    if ok: "toBuffer sh files (FromPath (path img)) ?ops = Inr buf0" for buf0
    using assms
  proof (cases rule: compressImage_elim)
    case (decode_failed err)
    with ok show ?thesis by simp
  next
    case (stage_failed b err evs1)
    with ok have b: "b = buf0" by simp
    from compressStages_head [OF stage_failed(2)] show ?thesis
      unfolding stage_failed(5) b by (auto split: if_splits)
  next
    case (write_failed b buf evs1 err)
    with ok have b: "b = buf0" by simp
    from compressStages_head [OF write_failed(2)] show ?thesis
      unfolding write_failed(5) b by (auto split: if_splits)
  next
    case (stat_failed b buf evs1 err)
    with ok have b: "b = buf0" by simp
    from compressStages_head [OF stat_failed(2)] show ?thesis
      unfolding stat_failed(6) b by (auto split: if_splits)
  next
    case (success b buf evs1 newSize)
    with ok have b: "b = buf0" by simp
    from compressStages_head [OF success(2)] show ?thesis
      unfolding success(6) b by (auto split: if_splits)
  qed
  show ?thesis
  proof (intro conjI allI impI)
    fix w assume "width img = Some w \<and> 1500 < w"
    with first wide show "take 1 evs = [SharpToBuffer (FromPath (path img)) [Resize 1400 True]]"
      by simp
  next
    assume "\<forall>w. width img = Some w \<longrightarrow> w \<le> 1500"
    with first narrow show "take 1 evs = [SharpToBuffer (FromPath (path img)) []]"
      by simp
  next
    fix inp ops buf0
    assume h: "take 1 evs = [SharpToBuffer inp ops] \<and> toBuffer sh files inp ops = Inr buf0"
    with first have "inp = FromPath (path img)" "ops = ?ops" by simp_all
    with h have "toBuffer sh files (FromPath (path img)) ?ops = Inr buf0" by simp
    then show "take 1 (drop 1 evs) =
              [if maxSize < length buf0 \<and> (extension img = ''.jpg'' \<or> extension img = ''.jpeg'')
               then SharpToBuffer (FromBuffer buf0) [Jpeg 80]
               else if maxSize < length buf0 \<and> extension img = ''.png''
               then SharpToBuffer (FromBuffer buf0) [Png 9]
               else SharpToFile (FromBuffer buf0) [] (path img)]"
      by (rule nxt)
  qed
qed

text \<open>
  The amended claim C7 at a record of width 2000 and at one of width 800.
\<close>

theorem resize_stage_gating_witness:
  "take 1 [SharpToBuffer (FromPath ''/img/a.jpg'') [Resize 1400 True],
           SharpToFile (FromBuffer [1, 2, 3, 4]) [] ''/img/a.jpg'',
           StatSync ''/img/a.jpg'']
     = [SharpToBuffer (FromPath ''/img/a.jpg'') [Resize 1400 True]] \<and>
   take 1 (drop 1 [SharpToBuffer (FromPath ''/img/a.jpg'') [Resize 1400 True],
           SharpToFile (FromBuffer [1, 2, 3, 4]) [] ''/img/a.jpg'',
           StatSync ''/img/a.jpg''])
     = [SharpToFile (FromBuffer [1, 2, 3, 4]) [] ''/img/a.jpg''] \<and>
   take 1 [SharpToBuffer (FromPath ''/img/a.png'') [],
           SharpToFile (FromBuffer [1, 2]) [] ''/img/a.png'',
           StatSync ''/img/a.png'']
     = [SharpToBuffer (FromPath ''/img/a.png'') []]"
proof -
  have wide: "compressImage example_sharp 10
     \<lparr>name = ''a'', path = ''/img/a.jpg'', sizeStr = ''8 Bytes'', extension = ''.jpg'',
      width = Some 2000, height = Some 1000\<rparr>
     [''/img/a.jpg'' \<mapsto> [1, 2, 3, 4, 5, 6, 7, 8]]
   = (Inr 4,
      [''/img/a.jpg'' \<mapsto> [1, 2, 3, 4]],
      [SharpToBuffer (FromPath ''/img/a.jpg'') [Resize 1400 True],
       SharpToFile (FromBuffer [1, 2, 3, 4]) [] ''/img/a.jpg'',
       StatSync ''/img/a.jpg''])"
    by (simp add: run_defs)
  have narrow: "compressImage example_sharp 10
     \<lparr>name = ''a'', path = ''/img/a.png'', sizeStr = ''3 Bytes'', extension = ''.png'',
      width = Some 800, height = Some 600\<rparr>
     [''/img/a.png'' \<mapsto> [1, 0, 2]]
   = (Inr 2,
      [''/img/a.png'' \<mapsto> [1, 2]],
      [SharpToBuffer (FromPath ''/img/a.png'') [],
       SharpToFile (FromBuffer [1, 2]) [] ''/img/a.png'',
       StatSync ''/img/a.png''])"
    by (simp add: run_defs)
  from resize_stage_gating [OF wide] resize_stage_gating [OF narrow] show ?thesis
    by simp
qed

section \<open>Failures in the pass over the catalog\<close>

text \<open>
  Claim C6. When the compression of a record fails, at whatever step, the error is
  logged, the pass goes on with the records after it, from the file system the failed
  call left, and that file system is the one before the call when the call asked for
  no write (the failure came before the commit). The events of the pass are those of
  the earlier records, those of the failed call, the error line of the loop, and
  those of the later records.
\<close>

theorem failure_isolation:
  assumes "compressImagesFromJson sh maxSize earlier files = (files1, evs1)"
    and "shouldCompress (sizeStr img)"
    and "compressImage sh maxSize img files1 = (Inl err, files2, evs)"
    and "compressImagesFromJson sh maxSize later files2 = (files3, evs3)"
  shows "compressImagesFromJson sh maxSize (earlier @ img # later) files
           = (files3,
              evs1 @ evs @ [ConsoleError (''Error compressing '' @ path img @ '':'') err] @ evs3) \<and>
         ConsoleError (''Error compressing '' @ path img @ '':'') err \<in> set evs \<and>
         (writes evs = [] \<longrightarrow> files2 = files1)"
proof -
  have step: "processImage sh maxSize img files1
      = (files2, evs @ [ConsoleError (''Error compressing '' @ path img @ '':'') err])"
    using assms(2,3) by (simp add: processImage_def)
  have run: "compressImagesFromJson sh maxSize (earlier @ img # later) files
           = (files3,
              evs1 @ evs @ [ConsoleError (''Error compressing '' @ path img @ '':'') err] @ evs3)"
    using assms(1,4) step by (simp add: compressImagesFromJson_append)
  have logged: "ConsoleError (''Error compressing '' @ path img @ '':'') err \<in> set evs"
    using assms(3) by (cases rule: compressImage_elim) simp_all
  have untouched: "writes evs = [] \<longrightarrow> files2 = files1"
    using assms(3)
  proof (cases rule: compressImage_elim)
    case (write_failed buf0 buf evs1 err)
    then show ?thesis by simp
  next
    case (stat_failed buf0 buf evs1 err)
    then show ?thesis by simp
  qed simp_all
  from run logged untouched show ?thesis by blast
qed

text \<open>
  Claim C6 at a catalog of two records: the file of the first is missing, the second
  is compressed.
\<close>

theorem failure_isolation_witness:
  "compressImagesFromJson example_sharp 10
     [\<lparr>name = ''gone'', path = ''/img/gone.png'', sizeStr = ''1.00 MB'', extension = ''.png'',
       width = Some 800, height = Some 600\<rparr>,
      \<lparr>name = ''b'', path = ''/img/b.png'', sizeStr = ''3 Bytes'', extension = ''.png'',
       width = Some 800, height = Some 600\<rparr>]
     [''/img/b.png'' \<mapsto> [1, 0, 2]]
   = ([''/img/b.png'' \<mapsto> [1, 2]],
      [SharpToBuffer (FromPath ''/img/gone.png'') [],
       ConsoleError ''Error compressing /img/gone.png:'' (SharpError ''Input file is missing''),
       ConsoleError ''Error compressing /img/gone.png:'' (SharpError ''Input file is missing''),
       SharpToBuffer (FromPath ''/img/b.png'') [],
       SharpToFile (FromBuffer [1, 2]) [] ''/img/b.png'',
       StatSync ''/img/b.png'',
       ConsoleLog ''Compressed: /img/b.png to 2 Bytes from 3 Bytes''])"
proof -
  let ?files = "[''/img/b.png'' \<mapsto> [1, 0, 2 :: 8 word]]"
  let ?gone = "\<lparr>name = ''gone'', path = ''/img/gone.png'', sizeStr = ''1.00 MB'',
      extension = ''.png'', width = Some 800, height = Some 600\<rparr>"
  let ?b = "\<lparr>name = ''b'', path = ''/img/b.png'', sizeStr = ''3 Bytes'', extension = ''.png'',
       width = Some 800, height = Some 600\<rparr>"
  have 1: "compressImagesFromJson example_sharp 10 [] ?files = (?files, [])"
    by simp
  have 2: "shouldCompress (sizeStr ?gone)"
    by (simp add: shouldCompress_def)
  have 3: "compressImage example_sharp 10 ?gone ?files
      = (Inl (SharpError ''Input file is missing''), ?files,
         [SharpToBuffer (FromPath ''/img/gone.png'') [],
          ConsoleError ''Error compressing /img/gone.png:'' (SharpError ''Input file is missing'')])"
    by (simp add: run_defs)
  have b: "compressImage example_sharp 10 ?b ?files
      = (Inr 2, [''/img/b.png'' \<mapsto> [1, 2]],
         [SharpToBuffer (FromPath ''/img/b.png'') [],
          SharpToFile (FromBuffer [1, 2]) [] ''/img/b.png'',
          StatSync ''/img/b.png''])"
    by (simp add: run_defs)
  have 4: "compressImagesFromJson example_sharp 10 [?b] ?files
      = ([''/img/b.png'' \<mapsto> [1, 2]],
         [SharpToBuffer (FromPath ''/img/b.png'') [],
          SharpToFile (FromBuffer [1, 2]) [] ''/img/b.png'',
          StatSync ''/img/b.png'',
          ConsoleLog ''Compressed: /img/b.png to 2 Bytes from 3 Bytes''])"
    by (simp add: processImage_def b shouldCompress_def formatSize_unfold digitChar_def)
  from failure_isolation [OF 1 2 3 4] show ?thesis by simp
qed

section \<open>The letter case of the extension\<close>

text \<open>
  Claim C4, at the input where the code departs from it. A file \<open>photo.JPG\<close> is
  classified as an image, and its record keeps the extension \<open>.JPG\<close> as it is
  spelled. \<open>compressImage\<close> compares the extension with the lowercase spellings only:
  with a budget of three bytes the six-byte buffer of the \<open>.JPG\<close> record is written
  without any re-encoding, where the same file with the extension \<open>.jpg\<close> is
  re-encoded at quality 80 and then 60.
\<close>

theorem uppercase_extension_not_reencoded:
  "isImage ''photo.JPG'' \<and>
   fst (collectFile example_sharp [''/img/photo.JPG'' \<mapsto> replicate 6 1] ''/img''
          ''photo.JPG'' [])
     = [\<lparr>name = ''photo'', path = ''/img/photo.JPG'', sizeStr = ''6 Bytes'',
         extension = ''.JPG'', width = Some 6, height = Some 6, sizeInBytes = 6\<rparr>] \<and>
   compressImage example_sharp 3
     \<lparr>name = ''photo'', path = ''/img/photo.JPG'', sizeStr = ''6 Bytes'',
      extension = ''.JPG'', width = Some 6, height = Some 6\<rparr>
     [''/img/photo.JPG'' \<mapsto> replicate 6 1]
     = (Inr 6,
        [''/img/photo.JPG'' \<mapsto> replicate 6 1],
        [SharpToBuffer (FromPath ''/img/photo.JPG'') [],
         SharpToFile (FromBuffer (replicate 6 1)) [] ''/img/photo.JPG'',
         StatSync ''/img/photo.JPG'']) \<and>
   compressImage example_sharp 3
     \<lparr>name = ''photo'', path = ''/img/photo.jpg'', sizeStr = ''6 Bytes'',
      extension = ''.jpg'', width = Some 6, height = Some 6\<rparr>
     [''/img/photo.jpg'' \<mapsto> replicate 6 1]
     = (Inr 2,
        [''/img/photo.jpg'' \<mapsto> replicate 2 1],
        [SharpToBuffer (FromPath ''/img/photo.jpg'') [],
         SharpToBuffer (FromBuffer (replicate 6 1)) [Jpeg 80],
         SharpToBuffer (FromBuffer (replicate 4 1)) [Jpeg 60],
         SharpToFile (FromBuffer (replicate 2 1)) [] ''/img/photo.jpg'',
         StatSync ''/img/photo.jpg''])"
proof -
  have ext: "extname ''photo.JPG'' = ''.JPG''"
    by (simp add: extname_def lastComponent_def)
  have img: "isImage ''photo.JPG''"
    by (simp add: isImage_def ext toLowerCase_def lowerChar_def imageExtensions_def)
  have rec: "fst (collectFile example_sharp [''/img/photo.JPG'' \<mapsto> replicate 6 1] ''/img''
          ''photo.JPG'' [])
     = [\<lparr>name = ''photo'', path = ''/img/photo.JPG'', sizeStr = ''6 Bytes'',
         extension = ''.JPG'', width = Some 6, height = Some 6, sizeInBytes = 6\<rparr>]"
    by (simp add: collectFile_def img ext join_def basename_def suffix_def
        collector_formatSize_eq formatSize_unfold digitChar_def example_sharp_def
        example_load_def Let_def)
  have upper: "compressImage example_sharp 3
     \<lparr>name = ''photo'', path = ''/img/photo.JPG'', sizeStr = ''6 Bytes'',
      extension = ''.JPG'', width = Some 6, height = Some 6\<rparr>
     [''/img/photo.JPG'' \<mapsto> replicate 6 1]
     = (Inr 6,
        [''/img/photo.JPG'' \<mapsto> replicate 6 1],
        [SharpToBuffer (FromPath ''/img/photo.JPG'') [],
         SharpToFile (FromBuffer (replicate 6 1)) [] ''/img/photo.JPG'',
         StatSync ''/img/photo.JPG''])"
    by (simp add: run_defs filter_replicate)
  have lower: "compressImage example_sharp 3
     \<lparr>name = ''photo'', path = ''/img/photo.jpg'', sizeStr = ''6 Bytes'',
      extension = ''.jpg'', width = Some 6, height = Some 6\<rparr>
     [''/img/photo.jpg'' \<mapsto> replicate 6 1]
     = (Inr 2,
        [''/img/photo.jpg'' \<mapsto> replicate 2 1],
        [SharpToBuffer (FromPath ''/img/photo.jpg'') [],
         SharpToBuffer (FromBuffer (replicate 6 1)) [Jpeg 80],
         SharpToBuffer (FromBuffer (replicate 4 1)) [Jpeg 60],
         SharpToFile (FromBuffer (replicate 2 1)) [] ''/img/photo.jpg'',
         StatSync ''/img/photo.jpg''])"
    by (simp add: run_defs filter_replicate)
  from img rec upper lower show ?thesis by (intro conjI)
qed

section \<open>A second pass\<close>

text \<open>
  Claim C5, at the input where the code departs from it. A directory holds one file
  \<open>a.png\<close> of 500 bytes, within the budget of \<open>250 * 1024 = 256000\<close> bytes. Its display
  string \<open>500 Bytes\<close> has no \<open>KB\<close> in it, so \<open>shouldCompress\<close> selects it, and the pass
  writes the file. The pass leaves the file system as it was, so every later pass
  does the same.
\<close>

theorem small_file_rewritten_every_pass:
  "imagesToSave (fst (collectFile example_sharp [''/img/a.png'' \<mapsto> replicate 500 1] ''/img''
          ''a.png'' []))
     = [\<lparr>name = ''a'', path = ''/img/a.png'', sizeStr = ''500 Bytes'', extension = ''.png'',
         width = Some 500, height = Some 500\<rparr>] \<and>
   compressImagesFromJson example_sharp 256000
     [\<lparr>name = ''a'', path = ''/img/a.png'', sizeStr = ''500 Bytes'', extension = ''.png'',
       width = Some 500, height = Some 500\<rparr>]
     [''/img/a.png'' \<mapsto> replicate 500 1]
     = ([''/img/a.png'' \<mapsto> replicate 500 1],
        [SharpToBuffer (FromPath ''/img/a.png'') [],
         SharpToFile (FromBuffer (replicate 500 1)) [] ''/img/a.png'',
         StatSync ''/img/a.png'',
         ConsoleLog ''Compressed: /img/a.png to 500 Bytes from 500 Bytes''])"
proof -
  have ext: "extname ''a.png'' = ''.png''"
    by (simp add: extname_def lastComponent_def)
  have img: "isImage ''a.png''"
    by (simp add: isImage_def ext toLowerCase_def lowerChar_def imageExtensions_def)
  have cat: "imagesToSave (fst (collectFile example_sharp [''/img/a.png'' \<mapsto> replicate 500 1]
          ''/img'' ''a.png'' []))
     = [\<lparr>name = ''a'', path = ''/img/a.png'', sizeStr = ''500 Bytes'', extension = ''.png'',
         width = Some 500, height = Some 500\<rparr>]"
    by (simp add: imagesToSave_def collectFile_def img ext join_def basename_def suffix_def
        collector_formatSize_eq formatSize_unfold digitChar_def example_sharp_def
        example_load_def image.truncate_def Let_def)
  have sel: "shouldCompress ''500 Bytes''"
    by (simp add: shouldCompress_def)
  have one: "compressImage example_sharp 256000
     \<lparr>name = ''a'', path = ''/img/a.png'', sizeStr = ''500 Bytes'', extension = ''.png'',
      width = Some 500, height = Some 500\<rparr>
     [''/img/a.png'' \<mapsto> replicate 500 1]
     = (Inr 500, [''/img/a.png'' \<mapsto> replicate 500 1],
        [SharpToBuffer (FromPath ''/img/a.png'') [],
         SharpToFile (FromBuffer (replicate 500 1)) [] ''/img/a.png'',
         StatSync ''/img/a.png''])"
    by (simp add: run_defs filter_replicate)
  have pass: "compressImagesFromJson example_sharp 256000
     [\<lparr>name = ''a'', path = ''/img/a.png'', sizeStr = ''500 Bytes'', extension = ''.png'',
       width = Some 500, height = Some 500\<rparr>]
     [''/img/a.png'' \<mapsto> replicate 500 1]
     = ([''/img/a.png'' \<mapsto> replicate 500 1],
        [SharpToBuffer (FromPath ''/img/a.png'') [],
         SharpToFile (FromBuffer (replicate 500 1)) [] ''/img/a.png'',
         StatSync ''/img/a.png'',
         ConsoleLog ''Compressed: /img/a.png to 500 Bytes from 500 Bytes''])"
    using sel by (simp add: processImage_def one formatSize_unfold digitChar_def)
  from cat pass show ?thesis by (intro conjI)
qed

end
